theory Spec2Isabelle
  imports Main "HOL-Library.Sublist"
begin

section \<open>The trainer (src/lkan/trainers/base.py)\<close>

subsection \<open>Data\<close>

text \<open>
  The exceptions the training loop itself can raise: a modulo by zero, the read of the
  attribute \<open>lr_scheduler\<close> (set by the constructor only when a scheduler class was
  given), and \<open>next\<close> on the cycled validation loader when that loader is empty.
\<close>

datatype py_error = ZeroDivisionError | AttributeError | StopIteration

text \<open>
  The constructor argument \<open>lr_step\<close>: \<open>None\<close>, the string \<open>"epoch"\<close>, or a number of
  steps.
\<close>

datatype lr_step_kind = LrNone | LrEpoch | LrEvery int

text \<open>
  The effects of the loop on its collaborators (model, optimizer, scheduler, logger,
  console), in the order they happen. Batches are values of an arbitrary type \<open>'b\<close>.
  The gradient buffers are kept symbolically: the list of the batches whose loss gradients
  have been added to them since they were last zeroed; \<open>OptStep\<close> records the buffers
  that the optimizer update reads.
\<close>

datatype 'b event =
    PrintEpoch nat
  | ZeroGrad
  | Backward 'b
  | ClipGrad
  | OptStep "'b list"
  | LogTrain int
  | SchedStep
  | SaveModel int
  | ValidationStep 'b int

record 'b trainer =
  lr_step :: lr_step_kind
  lr_scheduler :: bool
  accumulate_grad_batches :: int
  global_step :: int
  grads :: "'b list"
  events :: "'b event list"

text \<open>
  The data module: \<open>train_dataloader\<close> is called once per epoch (the argument is the
  number of the call), \<open>val_dataloader\<close> once per \<open>fit\<close>.
\<close>

record 'b datamodule =
  train_dataloader :: "nat \<Rightarrow> 'b list"
  val_dataloader :: "'b list"

type_synonym 'b raised = "py_error \<times> 'b trainer"

subsection \<open>Operations\<close>

definition emit :: "'b trainer \<Rightarrow> 'b event list \<Rightarrow> 'b trainer" where
  "emit t es = t\<lparr>events := events t @ es\<rparr>"

text \<open>
  \<open>training_step\<close>: \<open>zero_grad\<close>, \<open>backward\<close>, then clipping and the optimizer update
  behind the gate \<open>global_step % accumulate_grad_batches == 0\<close>, then the log call.
  The method \<open>step\<close> is the subclass's; it is taken to return, and the loss and the logs
  it computes are not modelled: \<open>Backward batch\<close> stands for the backward pass of the loss
  of \<open>batch\<close>. Moving a batch to the device leaves no trace.
\<close>

definition training_step :: "'b trainer \<Rightarrow> 'b \<Rightarrow> int \<Rightarrow> 'b raised + 'b trainer" where
  "training_step t batch batch_idx =
     (let t1 = emit (t\<lparr>grads := []\<rparr>) [ZeroGrad];
          t2 = emit (t1\<lparr>grads := grads t1 @ [batch]\<rparr>) [Backward batch]
      in if accumulate_grad_batches t2 = 0 then Inl (ZeroDivisionError, t2)
         else
           let t3 = (if global_step t2 mod accumulate_grad_batches t2 = 0
                     then emit t2 [ClipGrad, OptStep (grads t2)] else t2)
           in Inr (emit t3 [LogTrain (global_step t3)]))"

text \<open>
  The scheduler gate after each training step:
  \<open>lr_step not in ("epoch", None) and global_step % lr_step == 0 and lr_scheduler is not None\<close>.
\<close>

definition step_lr :: "'b trainer \<Rightarrow> 'b raised + 'b trainer" where
  "step_lr t =
     (case lr_step t of
        LrNone \<Rightarrow> Inr t
      | LrEpoch \<Rightarrow> Inr t
      | LrEvery n \<Rightarrow>
          if n = 0 then Inl (ZeroDivisionError, t)
          else if global_step t mod n = 0
          then (if lr_scheduler t then Inr (emit t [SchedStep]) else Inl (AttributeError, t))
          else Inr t)"

text \<open>
  The scheduler gate after each epoch's batch loop:
  \<open>lr_step == "epoch" and lr_scheduler is not None\<close>.
\<close>

definition epoch_lr :: "'b trainer \<Rightarrow> 'b raised + 'b trainer" where
  "epoch_lr t =
     (case lr_step t of
        LrEpoch \<Rightarrow> (if lr_scheduler t then Inr (emit t [SchedStep]) else Inl (AttributeError, t))
      | _ \<Rightarrow> Inr t)"

text \<open>
  One pass through the body of the batch loop. The result holds the trainer, the position
  of the cycled validation iterator and whether the loop was left by \<open>break\<close>.
\<close>

definition loop_body ::
  "int \<Rightarrow> int \<Rightarrow> int \<Rightarrow> 'b list \<Rightarrow> 'b trainer \<Rightarrow> nat \<Rightarrow> int \<Rightarrow> 'b
     \<Rightarrow> 'b raised + ('b trainer \<times> nat \<times> bool)" where
  "loop_body max_steps validation_every_n_steps save_every_n_steps vs t pos batch_idx batch =
     (case training_step t batch batch_idx of
        Inl err \<Rightarrow> Inl err
      | Inr t1 \<Rightarrow>
          (case step_lr (t1\<lparr>global_step := global_step t1 + 1\<rparr>) of
             Inl err \<Rightarrow> Inl err
           | Inr t2 \<Rightarrow>
               if global_step t2 > max_steps then Inr (t2, pos, True)
               else if save_every_n_steps = 0 then Inl (ZeroDivisionError, t2)
               else
                 let t3 = (if global_step t2 mod save_every_n_steps = 0
                           then emit t2 [SaveModel (global_step t2)] else t2)
                 in if validation_every_n_steps = 0 then Inl (ZeroDivisionError, t3)
                    else if batch_idx mod validation_every_n_steps = 0
                    then (if vs = [] then Inl (StopIteration, t3)
                          else Inr (emit t3 [ValidationStep (vs ! (pos mod length vs)) batch_idx],
                                    pos + 1, False))
                    else Inr (t3, pos, False)))"

fun train_loop ::
  "int \<Rightarrow> int \<Rightarrow> int \<Rightarrow> 'b list \<Rightarrow> 'b trainer \<Rightarrow> nat \<Rightarrow> int \<Rightarrow> 'b list
     \<Rightarrow> 'b raised + ('b trainer \<times> nat \<times> bool)" where
  "train_loop ms v sv vs t pos batch_idx [] = Inr (t, pos, False)"
| "train_loop ms v sv vs t pos batch_idx (batch # rest) =
     (case loop_body ms v sv vs t pos batch_idx batch of
        Inl err \<Rightarrow> Inl err
      | Inr (t', pos', stop) \<Rightarrow>
          if stop then Inr (t', pos', True)
          else train_loop ms v sv vs t' pos' (batch_idx + 1) rest)"

fun fit_epochs ::
  "int \<Rightarrow> int \<Rightarrow> int \<Rightarrow> 'b datamodule \<Rightarrow> 'b trainer \<Rightarrow> nat \<Rightarrow> nat list
     \<Rightarrow> 'b raised + 'b trainer" where
  "fit_epochs ms v sv dm t pos [] = Inr t"
| "fit_epochs ms v sv dm t pos (epoch # epochs) =
     (case train_loop ms v sv (val_dataloader dm) (emit t [PrintEpoch epoch]) pos 0
             (train_dataloader dm epoch) of
        Inl err \<Rightarrow> Inl err
      | Inr (t1, pos1, stop) \<Rightarrow>
          (case epoch_lr t1 of
             Inl err \<Rightarrow> Inl err
           | Inr t2 \<Rightarrow> if stop then Inr t2 else fit_epochs ms v sv dm t2 pos1 epochs))"

definition fit ::
  "'b trainer \<Rightarrow> int \<Rightarrow> int \<Rightarrow> int \<Rightarrow> int \<Rightarrow> 'b datamodule \<Rightarrow> 'b raised + 'b trainer" where
  "fit t max_epochs max_steps validation_every_n_steps save_every_n_steps datamodule =
     fit_epochs max_steps validation_every_n_steps save_every_n_steps datamodule
       (t\<lparr>global_step := 0\<rparr>) 0 [0..<nat max_epochs]"

text \<open>The trainer as it stands when \<open>fit\<close> has returned or raised.\<close>

fun final :: "'b raised + 'b trainer \<Rightarrow> 'b trainer" where
  "final (Inl (err, t)) = t"
| "final (Inr t) = t"

section \<open>The logger (src/lkan/loggers.py)\<close>

subsection \<open>Values, dictionaries and strings\<close>

text \<open>
  Python values: a plain dict (an instance of \<open>dict\<close>), or any other object. Of the other
  objects, \<open>None\<close>, booleans, integers and strings are modelled with their \<open>str()\<close> form;
  every further object (a float, a list, a node of an OmegaConf configuration, ...) is
  \<open>AOther\<close>, carrying the text \<open>str()\<close> gives for it.

  \<open>flatten_dict\<close> tests \<open>isinstance(v, dict)\<close>, which holds of \<open>Dict\<close> only. The
  constructor of the logger assigns \<open>cfg.save_dir\<close> and calls \<open>OmegaConf.save(cfg, ...)\<close>, so
  its \<open>cfg\<close> is an OmegaConf configuration: a mapping whose values are never instances of
  \<open>dict\<close> (a nested node is a \<open>DictConfig\<close> object). Such a configuration is therefore a
  list of keys with atoms, a nested node being the \<open>AOther\<close> that carries its \<open>str()\<close>.
\<close>

datatype atom = ANone | ABool bool | AInt int | AStr string | AOther string

datatype pyval = Atom atom | Dict "(string \<times> pyval) list"

text \<open>
  A Python dict is the list of its items in insertion order, with distinct keys.
  \<open>dict_set\<close> is \<open>d[k] = v\<close>, \<open>dict_update\<close> is \<open>d.update(items)\<close>, \<open>dict_of_items\<close> is
  \<open>dict(items)\<close>.
\<close>

fun dict_set :: "(string \<times> 'v) list \<Rightarrow> string \<Rightarrow> 'v \<Rightarrow> (string \<times> 'v) list" where
  "dict_set [] k v = [(k, v)]"
| "dict_set ((k', v') # d) k v = (if k' = k then (k, v) # d else (k', v') # dict_set d k v)"

definition dict_update :: "(string \<times> 'v) list \<Rightarrow> (string \<times> 'v) list \<Rightarrow> (string \<times> 'v) list" where
  "dict_update d items = foldl (\<lambda>d (k, v). dict_set d k v) d items"

definition dict_of_items :: "(string \<times> 'v) list \<Rightarrow> (string \<times> 'v) list" where
  "dict_of_items items = dict_update [] items"

text \<open>\<open>str(n)\<close> for a natural number, \<open>str(i)\<close> for an integer, \<open>str(v)\<close> for an atom.\<close>

definition digit_char :: "nat \<Rightarrow> char" where
  "digit_char n = ''0123456789'' ! n"

fun str_nat :: "nat \<Rightarrow> string" where
  "str_nat n = (if n < 10 then [digit_char n] else str_nat (n div 10) @ [digit_char (n mod 10)])"

declare str_nat.simps [simp del]

definition str_int :: "int \<Rightarrow> string" where
  "str_int i = (if i < 0 then ''-'' @ str_nat (nat (- i)) else str_nat (nat i))"

fun py_str :: "atom \<Rightarrow> string" where
  "py_str ANone = ''None''"
| "py_str (ABool b) = (if b then ''True'' else ''False'')"
| "py_str (AInt i) = str_int i"
| "py_str (AStr s) = s"
| "py_str (AOther s) = s"

text \<open>The value of a decimal digit string; used to tell run directories apart.\<close>

definition digit_val :: "char \<Rightarrow> nat" where
  "digit_val c = of_char c - 48"

definition nat_of_str :: "string \<Rightarrow> nat" where
  "nat_of_str s = foldl (\<lambda>a c. 10 * a + digit_val c) 0 s"

subsection \<open>\<open>flatten_dict\<close>\<close>

fun flatten_items :: "(string \<times> pyval) list \<Rightarrow> string \<Rightarrow> string \<Rightarrow> (string \<times> atom) list" where
  "flatten_items [] parent_key sep = []"
| "flatten_items ((k, Dict d') # d) parent_key sep =
     dict_of_items
       (flatten_items d' (if parent_key \<noteq> [] then parent_key @ sep @ k else k) sep)
     @ flatten_items d parent_key sep"
| "flatten_items ((k, Atom a) # d) parent_key sep =
     [(if parent_key \<noteq> [] then parent_key @ sep @ k else k, a)] @ flatten_items d parent_key sep"

definition flatten_dict :: "(string \<times> pyval) list \<Rightarrow> string \<Rightarrow> string \<Rightarrow> (string \<times> atom) list" where
  "flatten_dict d parent_key sep = dict_of_items (flatten_items d parent_key sep)"




subsection \<open>The file system and the run directory\<close>

text \<open>
  The file system is the list of the paths that exist. Creating a directory or a file is
  taken to succeed.
\<close>

definition path_exists :: "string list \<Rightarrow> string \<Rightarrow> bool" where
  "path_exists fs p \<longleftrightarrow> p \<in> set fs"

definition parent_dirs :: "string \<Rightarrow> string list" where
  "parent_dirs p = map (\<lambda>n. take n p) (filter (\<lambda>n. p ! n = CHR ''/'') [1..<length p])"

definition makedirs :: "string list \<Rightarrow> string \<Rightarrow> string list" where
  "makedirs fs p = fs @ filter (\<lambda>q. \<not> path_exists fs q) (parent_dirs p @ [p])"

definition write_file :: "string list \<Rightarrow> string \<Rightarrow> string list" where
  "write_file fs p = (if path_exists fs p then fs else fs @ [p])"

definition run_dir :: "string \<Rightarrow> nat \<Rightarrow> string" where
  "run_dir base i = base @ ''/run'' @ str_nat i"

text \<open>
  The \<open>while\<close> loop of \<open>folder_structure\<close>, on its two variables \<open>new_save_dir\<close> and
  \<open>i\<close>. It ends because the file system is finite and the names \<open>run<i>\<close> are pairwise
  different.
\<close>

function folder_loop :: "string list \<Rightarrow> string \<Rightarrow> string \<Rightarrow> nat \<Rightarrow> string" where
  "folder_loop fs base new_save_dir i =
     (if path_exists fs new_save_dir
      then folder_loop fs base (base @ ''/run'' @ str_nat i) (i + 1)
      else new_save_dir)"
  by pat_completeness auto
termination
proof (relation "measure (\<lambda>(fs, base, p, i).
          card {j. i \<le> j \<and> base @ ''/run'' @ str_nat j \<in> set fs} + (if p \<in> set fs then 1 else 0))",
       goal_cases)
  case 1
  show ?case by simp
next
  case (2 fs base p i)
  have digit: "digit_val (digit_char d) = d" if "d < 10" for d
  proof -
    from that have "d \<in> {0, 1, 2, 3, 4, 5, 6, 7, 8, 9}" by auto
    then show ?thesis by (auto simp: digit_val_def digit_char_def)
  qed
  have dec: "foldl (\<lambda>a c. 10 * a + digit_val c) 0 (str_nat n) = n" for n
  proof (induction n rule: str_nat.induct)
    case (1 n)
    show ?case
    proof (cases "n < 10")
      case True
      then have "str_nat n = [digit_char n]" by (subst str_nat.simps) simp
      with True show ?thesis by (simp add: digit)
    next
      case False
      then have "str_nat n = str_nat (n div 10) @ [digit_char (n mod 10)]"
        by (subst str_nat.simps) simp
      with 1[OF False] show ?thesis by (simp add: digit)
    qed
  qed
  have inj: "inj (\<lambda>j. base @ ''/run'' @ str_nat j)"
  proof (rule injI)
    fix x y assume "base @ ''/run'' @ str_nat x = base @ ''/run'' @ str_nat y"
    then have "str_nat x = str_nat y" by simp
    then have "foldl (\<lambda>a c. 10 * a + digit_val c) 0 (str_nat x)
        = foldl (\<lambda>a c. 10 * a + digit_val c) 0 (str_nat y)" by simp
    then show "x = y" by (simp only: dec)
  qed
  let ?R = "\<lambda>j. base @ ''/run'' @ str_nat j \<in> set fs"
  have fin: "finite {j. ?R j}"
    using finite_vimageI[OF finite_set inj, of fs] by (simp add: vimage_def)
  have fin': "finite {j. i + 1 \<le> j \<and> ?R j}" by (rule finite_subset[OF _ fin]) auto
  have split: "{j. i \<le> j \<and> ?R j} = (if ?R i then insert i {j. i + 1 \<le> j \<and> ?R j}
      else {j. i + 1 \<le> j \<and> ?R j})"
    by (auto simp: Suc_le_eq le_less)
  have "card {j. i + 1 \<le> j \<and> ?R j} + (if ?R i then 1 else 0) = card {j. i \<le> j \<and> ?R j}"
    unfolding split using fin' by simp
  with 2 show ?case by (simp add: path_exists_def)
qed

declare folder_loop.simps [simp del]

text \<open>
  \<open>folder_structure\<close>. Its argument \<open>base\<close> is \<open>cfg.save_dir\<close>, which the constructor
  has just set to its own argument \<open>save_dir\<close>. The event file that the constructor's
  \<open>SummaryWriter\<close> then opens inside the run directory has a name made of the clock and the
  host; it is not among the paths of the model.
\<close>

definition folder_structure ::
  "string list \<Rightarrow> string \<Rightarrow> (string \<times> atom) list
     \<Rightarrow> string list \<times> string \<times> (string \<times> atom) list" where
  "folder_structure fs base cfg =
     (let new_save_dir = folder_loop fs base (base @ ''/run0'') 1;
          fs1 = makedirs fs new_save_dir;
          fs2 = makedirs fs1 (new_save_dir @ ''/checkpoints'');
          fs3 = write_file fs2 (new_save_dir @ ''/config.yaml'')
      in (fs3, new_save_dir, dict_set cfg ''save_dir'' (AStr new_save_dir)))"

subsection \<open>The logger object\<close>

record logger =
  save_dir :: string
  version :: string
  hparams :: "(string \<times> pyval) list"
  metrics :: "(string \<times> pyval) list"

text \<open>
  The loop of the constructor over \<open>hparams.items()\<close>:
  \<open>if not isinstance(value, str): hparams[key] = str(value)\<close>.
\<close>

definition coerce_hparams :: "(string \<times> atom) list \<Rightarrow> (string \<times> atom) list" where
  "coerce_hparams h =
     foldl (\<lambda>d (key, val). case val of AStr s \<Rightarrow> d | _ \<Rightarrow> dict_set d key (AStr (py_str val))) h h"

text \<open>
  The constructor, on an OmegaConf configuration \<open>cfg\<close>. \<open>flatten_dict(cfg)\<close> is called
  with the default \<open>parent_key=""\<close> and \<open>sep="/"\<close>.
\<close>

definition CustomLogger_init ::
  "string list \<Rightarrow> string \<Rightarrow> string \<Rightarrow> string \<Rightarrow> (string \<times> atom) list
     \<Rightarrow> string list \<times> logger" where
  "CustomLogger_init fs dir name ver cfg =
     (let cfg1 = dict_set cfg ''save_dir'' (AStr dir);
          (fs', new_save_dir, cfg2) = folder_structure fs dir cfg1;
          h = coerce_hparams (flatten_dict (map (\<lambda>(k, a). (k, Atom a)) cfg2) [] ''/'')
      in (fs', \<lparr>save_dir = new_save_dir, version = ver,
                hparams = map (\<lambda>(k, a). (k, Atom a)) h, metrics = []\<rparr>))"

definition update_hyperparams ::
  "logger \<Rightarrow> (string \<times> pyval) list \<Rightarrow> (string \<times> pyval) list \<Rightarrow> logger" where
  "update_hyperparams l hp ms =
     l\<lparr>hparams := dict_update (hparams l) hp, metrics := dict_update (metrics l) ms\<rparr>"

fun is_str :: "pyval \<Rightarrow> bool" where
  "is_str (Atom (AStr s)) = True"
| "is_str v = False"

definition all_str :: "(string \<times> pyval) list \<Rightarrow> bool" where
  "all_str d = list_all (\<lambda>(k, v). is_str v) d"

section \<open>Traces: the vocabulary of the properties\<close>

text \<open>
  The events of one training step on batch \<open>b\<close> from trainer \<open>t\<close>, and the events
  of the checkpoint gate at global step \<open>g\<close>. The predicates below speak about the list
  of events a run has added to the trace: \<open>halted\<close> says that after a training step logged
  at a step \<open>g \<ge> max_steps\<close> nothing but scheduler steps follows; \<open>below\<close> that no
  training step was logged at such a step; \<open>grad_ok\<close> that every optimizer update reads
  the gradient of the one batch whose backward pass precedes it, and every backward pass
  directly follows a zeroing; \<open>saved_steps\<close> lists the steps of the checkpoints;
  \<open>run_ok\<close> and \<open>raise_ok\<close> collect what a returning and a raising run preserve.
  \<open>demo_trainer\<close> and \<open>demo_datamodule\<close> are the concrete inputs of the examples.
\<close>

definition train_events :: "'b trainer \<Rightarrow> 'b \<Rightarrow> 'b event list" where
  "train_events t b = [ZeroGrad, Backward b] @
     (if global_step t mod accumulate_grad_batches t = 0 then [ClipGrad, OptStep [b]] else []) @
     [LogTrain (global_step t)]"

definition save_events :: "int \<Rightarrow> int \<Rightarrow> 'b event list" where
  "save_events sv g = (if g mod sv = 0 then [SaveModel g] else [])"

fun halted :: "int \<Rightarrow> 'b event list \<Rightarrow> bool" where
  "halted ms [] = True"
| "halted ms (LogTrain g # es) = (if ms \<le> g then set es \<subseteq> {SchedStep} else halted ms es)"
| "halted ms (e # es) = halted ms es"

definition below :: "int \<Rightarrow> 'b event list \<Rightarrow> bool" where
  "below ms es \<longleftrightarrow> (\<forall>g. LogTrain g \<in> set es \<longrightarrow> g < ms)"

definition grad_ok :: "'b event list \<Rightarrow> bool" where
  "grad_ok es \<longleftrightarrow>
     (\<forall>pre gs post. es = pre @ OptStep gs # post \<longrightarrow>
        (\<exists>pre' b. pre = pre' @ [ZeroGrad, Backward b, ClipGrad] \<and> gs = [b])) \<and>
     (\<forall>pre b post. es = pre @ Backward b # post \<longrightarrow> (\<exists>pre'. pre = pre' @ [ZeroGrad]))"

fun saved_steps :: "'b event list \<Rightarrow> int list" where
  "saved_steps [] = []"
| "saved_steps (SaveModel g # es) = g # saved_steps es"
| "saved_steps (e # es) = saved_steps es"

fun is_epoch_mark :: "'b event \<Rightarrow> bool" where
  "is_epoch_mark (PrintEpoch e) = True"
| "is_epoch_mark SchedStep = True"
| "is_epoch_mark e = False"

definition run_ok :: "int \<Rightarrow> int \<Rightarrow> 'b trainer \<Rightarrow> 'b event list \<Rightarrow> 'b trainer \<Rightarrow> bool" where
  "run_ok ms sv t new t' \<longleftrightarrow>
     lr_step t' = lr_step t \<and> lr_scheduler t' = lr_scheduler t \<and>
     accumulate_grad_batches t' = accumulate_grad_batches t \<and> events t' = events t @ new \<and>
     global_step t \<le> global_step t' \<and> global_step t' \<le> max (global_step t + 1) (ms + 1) \<and>
     halted ms new \<and> grad_ok new \<and>
     saved_steps new = filter (\<lambda>g. g mod sv = 0) [global_step t + 1..min (global_step t') ms]"

definition raise_ok :: "int \<Rightarrow> 'b trainer \<Rightarrow> 'b event list \<Rightarrow> 'b trainer \<Rightarrow> bool" where
  "raise_ok ms t new t' \<longleftrightarrow>
     events t' = events t @ new \<and> global_step t' \<le> max (global_step t + 1) (ms + 1) \<and>
     halted ms new \<and> grad_ok new"

definition demo_trainer :: "nat trainer" where
  "demo_trainer = \<lparr>lr_step = LrEpoch, lr_scheduler = True, accumulate_grad_batches = 2,
     global_step = 0, grads = [], events = []\<rparr>"

definition demo_datamodule :: "nat datamodule" where
  "demo_datamodule = \<lparr>train_dataloader = (\<lambda>epoch. [10, 11, 12, 13, 14]), val_dataloader = [20, 21]\<rparr>"

text \<open>
  A condition under which neither scheduler gate raises: the scheduler is not used at all,
  or it exists and the step interval is not zero.
\<close>

definition sched_ok :: "'b trainer \<Rightarrow> bool" where
  "sched_ok t \<longleftrightarrow> lr_step t = LrNone \<or> (lr_scheduler t \<and> lr_step t \<noteq> LrEvery 0)"

text \<open>The trainer as the batch loop leaves it, returning or raising.\<close>

fun loop_final :: "'b raised + ('b trainer \<times> nat \<times> bool) \<Rightarrow> 'b trainer" where
  "loop_final (Inl (err, t)) = t"
| "loop_final (Inr (t, pos, stop)) = t"

text \<open>Every scheduler step is the last event of the trace or is followed by the start of an epoch.\<close>

definition sched_closes :: "'b event list \<Rightarrow> bool" where
  "sched_closes es \<longleftrightarrow>
     (\<forall>pre post. es = pre @ SchedStep # post \<longrightarrow>
        post = [] \<or> (\<exists>e post'. post = PrintEpoch e # post'))"

text \<open>
  \<open>save_model\<close> writes the file \<open><save_dir>/checkpoints/model_<step>.pt\<close>, over an
  older file of that name if there is one. \<open>checkpoint_files\<close> are the files written for
  the \<open>SaveModel\<close> events of a trace.
\<close>

definition checkpoint_path :: "logger \<Rightarrow> int \<Rightarrow> string" where
  "checkpoint_path l step = save_dir l @ ''/checkpoints/model_'' @ str_int step @ ''.pt''"

definition save_model :: "string list \<Rightarrow> logger \<Rightarrow> int \<Rightarrow> string list" where
  "save_model fs l step = write_file fs (checkpoint_path l step)"

definition checkpoint_files :: "string list \<Rightarrow> logger \<Rightarrow> 'b event list \<Rightarrow> string list" where
  "checkpoint_files fs l es = foldl (\<lambda>fs step. save_model fs l step) fs (saved_steps es)"

section \<open>Lemmas about the training loop\<close>

lemma training_step_eq:
  "training_step t b i =
     (if accumulate_grad_batches t = 0
      then Inl (ZeroDivisionError, t\<lparr>grads := [b], events := events t @ [ZeroGrad, Backward b]\<rparr>)
      else Inr (t\<lparr>grads := [b], events := events t @ train_events t b\<rparr>))"
  by (simp add: training_step_def emit_def Let_def train_events_def)

lemma step_lr_Inr:
  assumes "step_lr t = Inr t'"
  obtains sched where "t' = t\<lparr>events := events t @ sched\<rparr>" "set sched \<subseteq> {SchedStep}"
    "length sched \<le> 1" "lr_step t = LrNone \<or> lr_step t = LrEpoch \<Longrightarrow> sched = []"
proof (cases "lr_step t")
  case LrNone
  with assms have "t' = t\<lparr>events := events t @ []\<rparr>" by (simp add: step_lr_def)
  then show ?thesis using that[of "[]"] by simp
next
  case LrEpoch
  with assms have "t' = t\<lparr>events := events t @ []\<rparr>" by (simp add: step_lr_def)
  then show ?thesis using that[of "[]"] by simp
next
  case (LrEvery n)
  show ?thesis
  proof (cases "global_step t mod n = 0")
    case True
    with assms LrEvery have "t' = t\<lparr>events := events t @ [SchedStep]\<rparr>"
      by (simp add: step_lr_def emit_def split: if_splits)
    then show ?thesis using that[of "[SchedStep]"] LrEvery by simp
  next
    case False
    with assms LrEvery have "t' = t\<lparr>events := events t @ []\<rparr>"
      by (simp add: step_lr_def split: if_splits)
    then show ?thesis using that[of "[]"] by simp
  qed
qed

lemma step_lr_Inl:
  assumes "step_lr t = Inl (e, t')"
  shows "t' = t \<and> (\<exists>n. lr_step t = LrEvery n \<and> (e = ZeroDivisionError \<longleftrightarrow> n = 0))"
  using assms by (cases "lr_step t") (auto simp: step_lr_def split: if_splits)

lemma loop_body_Inr:
  assumes "loop_body ms v sv vs t pos i b = Inr (t', pos', stop)"
  obtains sched val where
    "accumulate_grad_batches t \<noteq> 0"
    "stop = (ms < global_step t + 1)"
    "t' = t\<lparr>grads := [b], global_step := global_step t + 1,
            events := events t @ train_events t b @ sched @
              (if stop then [] else save_events sv (global_step t + 1) @ val)\<rparr>"
    "set sched \<subseteq> {SchedStep}" "length sched \<le> 1"
    "lr_step t = LrNone \<or> lr_step t = LrEpoch \<Longrightarrow> sched = []"
    "val = [] \<or> (\<exists>x. val = [ValidationStep x i])"
    "\<not> stop \<Longrightarrow> sv \<noteq> 0 \<and> v \<noteq> 0"
proof -
  let ?t1 = "t\<lparr>grads := [b], events := events t @ train_events t b\<rparr>"
  from assms have acc: "accumulate_grad_batches t \<noteq> 0"
    by (auto simp: loop_body_def training_step_eq split: if_splits)
  with assms obtain t2 where t2: "step_lr (?t1\<lparr>global_step := global_step t + 1\<rparr>) = Inr t2"
    by (auto simp: loop_body_def training_step_eq split: sum.splits)
  from step_lr_Inr[OF t2] obtain sched where
    s: "t2 = t\<lparr>grads := [b], global_step := global_step t + 1,
              events := events t @ train_events t b @ sched\<rparr>"
       "set sched \<subseteq> {SchedStep}" "length sched \<le> 1"
       "lr_step t = LrNone \<or> lr_step t = LrEpoch \<Longrightarrow> sched = []"
    by (auto simp: )
  from assms acc t2 have body:
    "(if ms < global_step t2 then Inr (t2, pos, True)
      else if sv = 0 then Inl (ZeroDivisionError, t2)
      else let t3 = (if global_step t2 mod sv = 0 then emit t2 [SaveModel (global_step t2)] else t2)
           in if v = 0 then Inl (ZeroDivisionError, t3)
              else if i mod v = 0
              then (if vs = [] then Inl (StopIteration, t3)
                    else Inr (emit t3 [ValidationStep (vs ! (pos mod length vs)) i], pos + 1, False))
              else Inr (t3, pos, False)) = Inr (t', pos', stop)"
    by (simp add: loop_body_def training_step_eq)
  have g2: "global_step t2 = global_step t + 1" using s(1) by simp
  show ?thesis
  proof (cases "ms < global_step t + 1")
    case True
    with body g2 have "t' = t2" "stop" by auto
    then show ?thesis using that[of sched "[]"] acc s True by simp
  next
    case False
    with body g2 have nz: "sv \<noteq> 0" "v \<noteq> 0" and ns: "\<not> stop"
      by (auto simp: Let_def split: if_splits)
    let ?t3 = "t2\<lparr>events := events t2 @ save_events sv (global_step t + 1)\<rparr>"
    have t3: "(if global_step t2 mod sv = 0 then emit t2 [SaveModel (global_step t2)] else t2) = ?t3"
      by (simp add: emit_def save_events_def g2)
    from body False g2 nz have
      "t' = ?t3 \<or> (\<exists>x. t' = ?t3\<lparr>events := events ?t3 @ [ValidationStep x i]\<rparr>)"
      unfolding Let_def t3 by (auto simp: emit_def split: if_splits)
    then show ?thesis
    proof
      assume "t' = ?t3"
      then show ?thesis using that[of sched "[]"] acc s ns nz False by simp
    next
      assume "\<exists>x. t' = ?t3\<lparr>events := events ?t3 @ [ValidationStep x i]\<rparr>"
      then obtain x where "t' = ?t3\<lparr>events := events ?t3 @ [ValidationStep x i]\<rparr>" ..
      then show ?thesis using that[of sched "[ValidationStep x i]"] acc s ns nz False by simp
    qed
  qed
qed

lemma below_Nil [simp]: "below ms []"
  by (simp add: below_def)

lemma below_append [simp]: "below ms (A @ B) \<longleftrightarrow> below ms A \<and> below ms B"
  by (auto simp: below_def)

lemma below_Cons: "below ms (e # es) \<longleftrightarrow> (\<forall>g. e = LogTrain g \<longrightarrow> g < ms) \<and> below ms es"
  by (auto simp: below_def)

lemma halted_append_below: "below ms A \<Longrightarrow> halted ms (A @ B) = halted ms B"
  by (induction ms A rule: halted.induct) (auto simp: below_Cons)

lemma halted_below: "below ms A \<Longrightarrow> halted ms A"
  using halted_append_below[of ms A "[]"] by simp

lemma below_sched: "set B \<subseteq> {SchedStep} \<Longrightarrow> below ms B"
  by (auto simp: below_def)

lemma halted_append_sched: "halted ms A \<Longrightarrow> set B \<subseteq> {SchedStep} \<Longrightarrow> halted ms (A @ B)"
  by (induction ms A rule: halted.induct) (auto split: if_splits intro: halted_below below_sched)

lemma halted_split:
  "halted ms es \<Longrightarrow> es = pre @ LogTrain g # post \<Longrightarrow> ms \<le> g \<Longrightarrow> set post \<subseteq> {SchedStep}"
proof (induction pre arbitrary: es)
  case Nil
  then show ?case by simp
next
  case (Cons e pre)
  then obtain es' where es: "es = e # es'" "es' = pre @ LogTrain g # post" by auto
  show ?case
  proof (cases "\<exists>g'. e = LogTrain g' \<and> ms \<le> g'")
    case True
    with Cons.prems(1) es have "set es' \<subseteq> {SchedStep}" by auto
    with es(2) show ?thesis by auto
  next
    case False
    with Cons.prems(1) es(1) have "halted ms es'" by (cases e) auto
    with Cons.IH es(2) Cons.prems(3) show ?thesis by blast
  qed
qed

lemma saved_steps_append [simp]: "saved_steps (A @ B) = saved_steps A @ saved_steps B"
  by (induction A rule: saved_steps.induct) auto

lemma grad_ok_Nil [simp]: "grad_ok []"
  by (simp add: grad_ok_def)

lemma grad_ok_append: 
  assumes "grad_ok A" "grad_ok B" shows "grad_ok (A @ B)"
  unfolding grad_ok_def
proof (intro conjI allI impI)
  fix pre gs post assume eq: "A @ B = pre @ OptStep gs # post"
  then consider us where "A = pre @ us" "us @ B = OptStep gs # post"
    | us where "A @ us = pre" "B = us @ OptStep gs # post"
    by (auto simp: append_eq_append_conv2)
  then show "\<exists>pre' b. pre = pre' @ [ZeroGrad, Backward b, ClipGrad] \<and> gs = [b]"
  proof cases
    case 1
    show ?thesis
    proof (cases us)
      case Nil
      with 1 have "B = [] @ OptStep gs # post" by simp
      with assms(2) show ?thesis unfolding grad_ok_def by blast
    next
      case (Cons u us')
      with 1 have "A = pre @ OptStep gs # us'" by simp
      with assms(1) show ?thesis unfolding grad_ok_def by blast
    qed
  next
    case 2
    with assms(2) obtain pre' b where "us = pre' @ [ZeroGrad, Backward b, ClipGrad]" "gs = [b]"
      unfolding grad_ok_def by blast
    with 2 have "pre = (A @ pre') @ [ZeroGrad, Backward b, ClipGrad] \<and> gs = [b]" by simp
    then show ?thesis by blast
  qed
next
  fix pre b post assume eq: "A @ B = pre @ Backward b # post"
  then consider us where "A = pre @ us" "us @ B = Backward b # post"
    | us where "A @ us = pre" "B = us @ Backward b # post"
    by (auto simp: append_eq_append_conv2)
  then show "\<exists>pre'. pre = pre' @ [ZeroGrad]"
  proof cases
    case 1
    show ?thesis
    proof (cases us)
      case Nil
      with 1 have "B = [] @ Backward b # post" by simp
      with assms(2) show ?thesis unfolding grad_ok_def by blast
    next
      case (Cons u us')
      with 1 have "A = pre @ Backward b # us'" by simp
      with assms(1) show ?thesis unfolding grad_ok_def by blast
    qed
  next
    case 2
    with assms(2) obtain pre' where "us = pre' @ [ZeroGrad]"
      unfolding grad_ok_def by blast
    with 2 have "pre = (A @ pre') @ [ZeroGrad]" by simp
    then show ?thesis by blast
  qed
qed

lemma grad_ok_plain: "(\<forall>e\<in>set es. (\<forall>gs. e \<noteq> OptStep gs) \<and> (\<forall>b. e \<noteq> Backward b)) \<Longrightarrow> grad_ok es"
  unfolding grad_ok_def by auto

lemma grad_ok_zero_backward: "grad_ok [ZeroGrad, Backward b]"
  unfolding grad_ok_def by (auto simp: append_eq_Cons_conv Cons_eq_append_conv)

lemma grad_ok_train_update: "grad_ok [ZeroGrad, Backward b, ClipGrad, OptStep [b]]"
  unfolding grad_ok_def 
  by (auto simp: append_eq_Cons_conv Cons_eq_append_conv)

lemma grad_ok_train_events: "grad_ok (train_events t b)"
  unfolding train_events_def
  using grad_ok_append[OF grad_ok_train_update grad_ok_plain[of "[LogTrain (global_step t)]"], of b]
    grad_ok_append[OF grad_ok_zero_backward grad_ok_plain[of "[LogTrain (global_step t)]"], of b]
  by simp

lemma upto_join:
  fixes G :: int
  assumes "G \<le> G1" "G1 \<le> G'" "G1 \<le> max G ms"
  shows "[G + 1..min G1 ms] @ [G1 + 1..min G' ms] = [G + 1..min G' ms]"
proof (cases "G1 \<le> ms")
  case True
  show ?thesis
  proof (cases "G1 + 1 \<le> min G' ms")
    case True
    with \<open>G1 \<le> ms\<close> assms show ?thesis
      using upto_split1[of "G + 1" "G1 + 1" "min G' ms"] by (simp add: min_def)
  next
    case False
    with \<open>G1 \<le> ms\<close> assms have "min G' ms = G1" by (auto simp: min_def)
    with \<open>G1 \<le> ms\<close> show ?thesis by (simp add: min_def)
  qed
next
  case False
  with assms have "G1 = G" by (auto simp: max_def split: if_splits)
  with False show ?thesis by (simp add: min_def)
qed

lemma run_ok_refl: "run_ok ms sv t [] t"
  by (simp add: run_ok_def max_def)

lemma run_ok_trans:
  assumes A: "run_ok ms sv t A t1" and b: "below ms A"
    and g: "global_step t1 \<le> max (global_step t) ms" and B: "run_ok ms sv t1 B t'"
  shows "run_ok ms sv t (A @ B) t'"
proof -
  from A B have frame: "lr_step t' = lr_step t" "lr_scheduler t' = lr_scheduler t"
    "accumulate_grad_batches t' = accumulate_grad_batches t" "events t' = events t @ A @ B"
    by (simp_all add: run_ok_def)
  from A B have le: "global_step t \<le> global_step t1" "global_step t1 \<le> global_step t'"
    "global_step t' \<le> max (global_step t1 + 1) (ms + 1)"
    by (simp_all add: run_ok_def)
  with g have bound: "global_step t' \<le> max (global_step t + 1) (ms + 1)" by (auto simp: max_def split: if_splits)
  from B b have h: "halted ms (A @ B)" by (simp add: halted_append_below run_ok_def)
  from A B have go: "grad_ok (A @ B)" by (simp add: grad_ok_append run_ok_def)
  from A B have "saved_steps (A @ B) = filter (\<lambda>g. g mod sv = 0)
      ([global_step t + 1..min (global_step t1) ms] @ [global_step t1 + 1..min (global_step t') ms])"
    by (simp add: run_ok_def)
  also have "\<dots> = filter (\<lambda>g. g mod sv = 0) [global_step t + 1..min (global_step t') ms]"
    using upto_join[OF le(1,2) g] by simp
  finally show ?thesis using frame le bound h go unfolding run_ok_def by auto
qed

lemma sched_only_facts:
  assumes "set sched \<subseteq> {SchedStep}"
  shows "below ms sched" "grad_ok sched" "saved_steps sched = []"
proof -
  show "below ms sched" using assms by (rule below_sched)
  show "grad_ok sched" using assms by (intro grad_ok_plain) auto
  show "saved_steps sched = []" using assms by (induction sched) auto
qed

lemma halted_train_events:
  "halted ms (train_events t b @ es) =
     (if ms \<le> global_step t then set es \<subseteq> {SchedStep} else halted ms es)"
  by (simp add: train_events_def)

lemma train_events_facts:
  "saved_steps (train_events t b) = []"
  "filter is_epoch_mark (train_events t b) = []"
  "below ms (train_events t b) \<longleftrightarrow> global_step t < ms"
  by (simp_all add: train_events_def below_def)

lemma save_events_facts:
  "grad_ok (save_events sv g)" "below ms (save_events sv g)"
  "filter is_epoch_mark (save_events sv g) = []"
  "saved_steps (save_events sv g) = filter (\<lambda>g. g mod sv = 0) [g..g]"
  by (simp_all add: save_events_def below_def grad_ok_plain)

lemma val_events_facts:
  assumes "val = [] \<or> (\<exists>x. val = [ValidationStep x i])"
  shows "grad_ok val" "below ms val" "filter is_epoch_mark val = []" "saved_steps val = []"
  using assms by (auto simp: below_def grad_ok_plain)

lemma loop_body_run_ok:
  assumes "loop_body ms v sv vs t pos i b = Inr (t', pos', stop)"
  obtains new where "run_ok ms sv t new t'" "global_step t' = global_step t + 1"
    "stop = (ms < global_step t + 1)" "\<not> stop \<Longrightarrow> below ms new"
    "lr_step t = LrNone \<or> lr_step t = LrEpoch \<Longrightarrow> filter is_epoch_mark new = []"
proof (rule loop_body_Inr[OF assms])
  fix sched val
  assume "accumulate_grad_batches t \<noteq> 0"
    and stop: "stop = (ms < global_step t + 1)"
    and t': "t' = t\<lparr>grads := [b], global_step := global_step t + 1,
            events := events t @ train_events t b @ sched @
              (if stop then [] else save_events sv (global_step t + 1) @ val)\<rparr>"
    and sched1: "set sched \<subseteq> {SchedStep}" and "length sched \<le> 1"
    and sched2: "lr_step t = LrNone \<or> lr_step t = LrEpoch \<Longrightarrow> sched = []"
    and val: "val = [] \<or> (\<exists>x. val = [ValidationStep x i])"
    and "\<not> stop \<Longrightarrow> sv \<noteq> 0 \<and> v \<noteq> 0"
  define new where "new = train_events t b @ sched @
              (if stop then [] else save_events sv (global_step t + 1) @ val)"
  note sf = sched_only_facts[OF sched1] and vf = val_events_facts[OF val]
  have frame: "lr_step t' = lr_step t" "lr_scheduler t' = lr_scheduler t"
    "accumulate_grad_batches t' = accumulate_grad_batches t" "events t' = events t @ new"
    "global_step t' = global_step t + 1"
    using t' by (simp_all add: new_def)
  have below: "below ms new" if "\<not> stop"
    using that stop sf(1) vf(2) by (simp add: new_def train_events_facts save_events_facts)
  have halted: "halted ms new"
  proof (cases stop)
    case True
    then show ?thesis using stop sched1 by (simp add: new_def halted_train_events)
  next
    case False
    then show ?thesis using below by (simp add: halted_below)
  qed
  have go: "grad_ok new"
    unfolding new_def using sf(2) vf(1)
    by (auto intro!: grad_ok_append grad_ok_train_events simp: save_events_facts)
  have saved: "saved_steps new = filter (\<lambda>g. g mod sv = 0) [global_step t + 1..min (global_step t') ms]"
    using stop sf(3) vf(4) frame(5)
    by (simp add: new_def train_events_facts save_events_facts min_def)
  have marks: "filter is_epoch_mark new = []" if "lr_step t = LrNone \<or> lr_step t = LrEpoch"
    using sched2[OF that] vf(3) by (simp add: new_def train_events_facts save_events_facts)
  have "run_ok ms sv t new t'"
    unfolding run_ok_def using frame halted go saved by (simp add: max_def)
  then show thesis using that[of new] frame(5) stop below marks by blast
qed

lemma loop_body_Inl:
  fixes t :: "'b trainer"
  assumes "loop_body ms v sv vs t pos i b = Inl (e, t')"
  obtains new where "raise_ok ms t new t'"
    "e = ZeroDivisionError \<Longrightarrow>
       accumulate_grad_batches t = 0 \<or> lr_step t = LrEvery 0 \<or> sv = 0 \<or> v = 0"
    "accumulate_grad_batches t \<noteq> 0 \<Longrightarrow> prefix (train_events t b) new"
proof (cases "accumulate_grad_batches t = 0")
  case True
  with assms have "events t' = events t @ [ZeroGrad, Backward b]" "global_step t' = global_step t"
    by (auto simp: loop_body_def training_step_eq)
  then have "raise_ok ms t [ZeroGrad, Backward b] t'"
    by (simp add: raise_ok_def grad_ok_zero_backward max_def)
  then show ?thesis using that[of "[ZeroGrad, Backward b]"] True by simp
next
  case acc: False
  let ?t1 = "t\<lparr>grads := [b], events := events t @ train_events t b\<rparr>"
  let ?t1' = "?t1\<lparr>global_step := global_step t + 1\<rparr>"
  show ?thesis
  proof (cases "step_lr ?t1'")
    case (Inl err)
    with assms acc have err: "err = (e, t')" by (simp add: loop_body_def training_step_eq)
    from step_lr_Inl[OF Inl[unfolded err]] obtain n where
      n: "t' = ?t1'" "lr_step t = LrEvery n" "e = ZeroDivisionError \<longleftrightarrow> n = 0" by auto
    have "raise_ok ms t (train_events t b @ []) t'"
      unfolding raise_ok_def using n(1)
      using halted_train_events[of ms t b "[]"] by (simp add: grad_ok_train_events max_def)
    then show ?thesis using that[of "train_events t b @ []"] n by simp
  next
    case (Inr t2)
    show ?thesis
    proof (rule step_lr_Inr[OF Inr])
    fix sched
    assume s0: "t2 = ?t1'\<lparr>events := events ?t1' @ sched\<rparr>"
      and s2: "set sched \<subseteq> {SchedStep}" and "length sched \<le> 1"
      and "lr_step ?t1' = LrNone \<or> lr_step ?t1' = LrEpoch \<Longrightarrow> sched = []"
    have s1: "t2 = t\<lparr>grads := [b], global_step := global_step t + 1,
              events := events t @ train_events t b @ sched\<rparr>"
      using s0 by simp
    note sf = sched_only_facts[OF s2]
    have g2: "global_step t2 = global_step t + 1" using s1 by simp
    from assms acc Inr have body:
      "(if ms < global_step t2 then Inr (t2, pos, True)
        else if sv = 0 then Inl (ZeroDivisionError, t2)
        else let t3 = (if global_step t2 mod sv = 0 then emit t2 [SaveModel (global_step t2)] else t2)
             in if v = 0 then Inl (ZeroDivisionError, t3)
                else if i mod v = 0
                then (if vs = [] then Inl (StopIteration, t3)
                      else Inr (emit t3 [ValidationStep (vs ! (pos mod length vs)) i], pos + 1, False))
                else Inr (t3, pos, False)) = Inl (e, t')"
      by (simp add: loop_body_def training_step_eq)
    then have ns: "\<not> ms < global_step t + 1" using g2 by (auto split: if_splits)
    let ?t3 = "t2\<lparr>events := events t2 @ save_events sv (global_step t + 1)\<rparr>"
    have t3: "(if global_step t2 mod sv = 0 then emit t2 [SaveModel (global_step t2)] else t2) = ?t3"
      by (simp add: emit_def save_events_def g2)
    from body ns g2 have cases: "(sv = 0 \<and> t' = t2 \<and> e = ZeroDivisionError) \<or>
        (sv \<noteq> 0 \<and> t' = ?t3 \<and> (e = ZeroDivisionError \<longrightarrow> v = 0))"
      unfolding Let_def t3 by (auto split: if_splits)
    define rest :: "'b event list"
      where "rest = (if sv = 0 then [] else save_events sv (global_step t + 1))"
    have rest: "events t' = events t @ train_events t b @ sched @ rest"
      "rest = [] \<or> rest = save_events sv (global_step t + 1)" "global_step t' = global_step t + 1"
      using cases s1 by (auto simp: rest_def)
    have b: "below ms (train_events t b @ sched @ rest)"
      using rest(2) ns sf(1) by (auto simp: train_events_facts save_events_facts)
    have go: "grad_ok (train_events t b @ sched @ rest)"
      using rest(2) sf(2) by (auto intro!: grad_ok_append grad_ok_train_events simp: save_events_facts)
    have "raise_ok ms t (train_events t b @ sched @ rest) t'"
      unfolding raise_ok_def using rest(1,3) go halted_below[OF b] by (simp add: max_def)
    then show thesis using that[of "train_events t b @ sched @ rest"] cases acc by auto
    qed
  qed
qed

lemma raise_ok_trans:
  assumes A: "run_ok ms sv t A t1" and b: "below ms A"
    and g: "global_step t1 \<le> max (global_step t) ms" and B: "raise_ok ms t1 B t'"
  shows "raise_ok ms t (A @ B) t'"
proof -
  from A B have ev: "events t' = events t @ A @ B" by (simp add: run_ok_def raise_ok_def)
  from A B have "global_step t \<le> global_step t1"
    "global_step t' \<le> max (global_step t1 + 1) (ms + 1)"
    by (simp_all add: run_ok_def raise_ok_def)
  with g have bound: "global_step t' \<le> max (global_step t + 1) (ms + 1)"
    by (auto simp: max_def split: if_splits)
  from B b have h: "halted ms (A @ B)" by (simp add: halted_append_below raise_ok_def)
  from A B have go: "grad_ok (A @ B)" by (simp add: grad_ok_append run_ok_def raise_ok_def)
  show ?thesis unfolding raise_ok_def using ev bound h go by simp
qed

lemma run_ok_sched:
  assumes A: "run_ok ms sv t A t1" and t2: "t2 = t1\<lparr>events := events t1 @ sched\<rparr>"
    and s: "set sched \<subseteq> {SchedStep}"
  shows "run_ok ms sv t (A @ sched) t2"
  using A sched_only_facts[OF s] unfolding run_ok_def t2
  by (simp add: halted_append_sched[OF _ s] grad_ok_append)

lemma run_ok_print: "run_ok ms sv t [PrintEpoch e] (emit t [PrintEpoch e])"
  by (simp add: run_ok_def emit_def grad_ok_plain max_def)

lemma train_loop_Inr:
  assumes "train_loop ms v sv vs t pos i bs = Inr (t', pos', stop)"
  shows "\<exists>new. run_ok ms sv t new t' \<and> (stop \<longrightarrow> ms < global_step t') \<and>
     (\<not> stop \<longrightarrow> below ms new \<and> global_step t' \<le> max (global_step t) ms) \<and>
     (lr_step t = LrNone \<or> lr_step t = LrEpoch \<longrightarrow> filter is_epoch_mark new = [])"
  using assms
proof (induction bs arbitrary: t pos i)
  case Nil
  then have "t' = t" "\<not> stop" by simp_all
  then show ?case using run_ok_refl[of ms sv t] by (intro exI[of _ "[]"]) simp
next
  case (Cons b bs)
  from Cons.prems obtain t1 pos1 s1 where
    body: "loop_body ms v sv vs t pos i b = Inr (t1, pos1, s1)"
    by (auto split: sum.splits)
  show ?case
  proof (rule loop_body_run_ok[OF body])
    fix new1
    assume r1: "run_ok ms sv t new1 t1" and g1: "global_step t1 = global_step t + 1"
      and s1: "s1 = (ms < global_step t + 1)" and b1: "\<not> s1 \<Longrightarrow> below ms new1"
      and m1: "lr_step t = LrNone \<or> lr_step t = LrEpoch \<Longrightarrow> filter is_epoch_mark new1 = []"
    show ?thesis
    proof (cases s1)
      case True
      with Cons.prems body have "t' = t1" "stop" by simp_all
      with r1 g1 s1 True m1 show ?thesis by (intro exI[of _ new1]) simp
    next
      case False
      with Cons.prems body have rest: "train_loop ms v sv vs t1 pos1 (i + 1) bs = Inr (t', pos', stop)"
        by simp
      from Cons.IH[OF rest] obtain new2 where
        r2: "run_ok ms sv t1 new2 t'" and st: "stop \<longrightarrow> ms < global_step t'"
        and ns: "\<not> stop \<longrightarrow> below ms new2 \<and> global_step t' \<le> max (global_step t1) ms"
        and m2: "lr_step t1 = LrNone \<or> lr_step t1 = LrEpoch \<longrightarrow> filter is_epoch_mark new2 = []"
        by blast
      from False s1 g1 have le: "global_step t1 \<le> max (global_step t) ms" by simp
      have r: "run_ok ms sv t (new1 @ new2) t'"
        by (rule run_ok_trans[OF r1 b1[OF False] le r2])
      have lr: "lr_step t1 = lr_step t" using r1 by (simp add: run_ok_def)
      have "\<not> stop \<longrightarrow> below ms (new1 @ new2) \<and> global_step t' \<le> max (global_step t) ms"
        using ns b1[OF False] False s1 g1 by (auto simp: max_def split: if_splits)
      moreover have "lr_step t = LrNone \<or> lr_step t = LrEpoch \<longrightarrow>
          filter is_epoch_mark (new1 @ new2) = []"
        using m1 m2 lr by auto
      ultimately show ?thesis using r st by (intro exI[of _ "new1 @ new2"]) simp
    qed
  qed
qed

lemma train_loop_Inl:
  assumes "train_loop ms v sv vs t pos i bs = Inl (e, t')"
  shows "\<exists>new. raise_ok ms t new t' \<and>
     (e = ZeroDivisionError \<longrightarrow>
        accumulate_grad_batches t = 0 \<or> lr_step t = LrEvery 0 \<or> sv = 0 \<or> v = 0)"
  using assms
proof (induction bs arbitrary: t pos i)
  case Nil
  then show ?case by simp
next
  case (Cons b bs)
  show ?case
  proof (cases "loop_body ms v sv vs t pos i b")
    case (Inl err)
    with Cons.prems have body: "loop_body ms v sv vs t pos i b = Inl (e, t')" by simp
    show ?thesis
      by (rule loop_body_Inl[OF body]) blast
  next
    case (Inr res)
    then obtain t1 pos1 s1 where
      body: "loop_body ms v sv vs t pos i b = Inr (t1, pos1, s1)"
      by (cases res) auto
    show ?thesis
    proof (rule loop_body_run_ok[OF body])
      fix new1
      assume r1: "run_ok ms sv t new1 t1" and g1: "global_step t1 = global_step t + 1"
        and s1: "s1 = (ms < global_step t + 1)" and b1: "\<not> s1 \<Longrightarrow> below ms new1"
        and m1: "lr_step t = LrNone \<or> lr_step t = LrEpoch \<Longrightarrow> filter is_epoch_mark new1 = []"
      from Cons.prems body have ns: "\<not> s1"
        and rest: "train_loop ms v sv vs t1 pos1 (i + 1) bs = Inl (e, t')"
        by (auto split: if_splits)
      from Cons.IH[OF rest] obtain new2 where
        r2: "raise_ok ms t1 new2 t'"
        and z: "e = ZeroDivisionError \<longrightarrow>
          accumulate_grad_batches t1 = 0 \<or> lr_step t1 = LrEvery 0 \<or> sv = 0 \<or> v = 0"
        by blast
      from ns s1 g1 have le: "global_step t1 \<le> max (global_step t) ms" by simp
      have "raise_ok ms t (new1 @ new2) t'"
        by (rule raise_ok_trans[OF r1 b1[OF ns] le r2])
      moreover have "lr_step t1 = lr_step t" "accumulate_grad_batches t1 = accumulate_grad_batches t"
        using r1 by (simp_all add: run_ok_def)
      ultimately show ?thesis using z by (intro exI[of _ "new1 @ new2"]) simp
    qed
  qed
qed

lemma epoch_lr_Inr:
  assumes "epoch_lr t = Inr t'"
  obtains sched where "t' = t\<lparr>events := events t @ sched\<rparr>" "set sched \<subseteq> {SchedStep}"
    "sched = (if lr_step t = LrEpoch then [SchedStep] else [])"
proof (cases "lr_step t = LrEpoch")
  case True
  with assms have "t' = t\<lparr>events := events t @ [SchedStep]\<rparr>"
    by (simp add: epoch_lr_def emit_def split: if_splits)
  then show ?thesis using that[of "[SchedStep]"] True by simp
next
  case False
  with assms have "t' = t\<lparr>events := events t @ []\<rparr>"
    by (cases "lr_step t") (simp_all add: epoch_lr_def)
  then show ?thesis using that[of "[]"] False by simp
qed

lemma epoch_lr_Inl:
  assumes "epoch_lr t = Inl (e, t')"
  shows "t' = t \<and> e = AttributeError \<and> lr_step t = LrEpoch \<and> \<not> lr_scheduler t"
  using assms by (cases "lr_step t") (auto simp: epoch_lr_def split: if_splits)

lemma run_ok_imp_raise_ok: "run_ok ms sv t new t' \<Longrightarrow> raise_ok ms t new t'"
  by (simp add: run_ok_def raise_ok_def)

lemma below_print: "below ms [PrintEpoch e]"
  by (simp add: below_def)

text \<open>One epoch that ran to its scheduler gate.\<close>

lemma epoch_run_ok:
  assumes loop: "train_loop ms v sv (val_dataloader dm) (emit t [PrintEpoch e]) pos 0
                   (train_dataloader dm e) = Inr (t1, pos1, stop)"
    and lr: "epoch_lr t1 = Inr t2"
  obtains new where "run_ok ms sv t new t2" "stop \<Longrightarrow> ms < global_step t2"
    "\<not> stop \<Longrightarrow> below ms new \<and> global_step t2 \<le> max (global_step t) ms"
proof -
  from train_loop_Inr[OF loop] obtain new1 where
    r1: "run_ok ms sv (emit t [PrintEpoch e]) new1 t1" and st: "stop \<longrightarrow> ms < global_step t1"
    and ns: "\<not> stop \<longrightarrow> below ms new1 \<and> global_step t1 \<le> max (global_step (emit t [PrintEpoch e])) ms"
    by blast
  have g0: "global_step (emit t [PrintEpoch e]) = global_step t" by (simp add: emit_def)
  have r01: "run_ok ms sv t ([PrintEpoch e] @ new1) t1"
    by (rule run_ok_trans[OF run_ok_print below_print _ r1]) (simp add: g0)
  show ?thesis
  proof (rule epoch_lr_Inr[OF lr])
    fix sched
    assume t2: "t2 = t1\<lparr>events := events t1 @ sched\<rparr>" and s: "set sched \<subseteq> {SchedStep}"
      and "sched = (if lr_step t1 = LrEpoch then [SchedStep] else [])"
    have r: "run_ok ms sv t (([PrintEpoch e] @ new1) @ sched) t2"
      by (rule run_ok_sched[OF r01 t2 s])
    have g2: "global_step t2 = global_step t1" using t2 by simp
    have "below ms (([PrintEpoch e] @ new1) @ sched)" if "\<not> stop"
      using that ns below_sched[OF s, of ms] by (simp add: below_Cons)
    then show thesis
      using that[OF r] st ns g0 g2 by auto
  qed
qed

lemma fit_epochs_Inr:
  assumes "fit_epochs ms v sv dm t pos epochs = Inr t'"
  shows "\<exists>new. run_ok ms sv t new t'"
  using assms
proof (induction epochs arbitrary: t pos)
  case Nil
  then show ?case using run_ok_refl[of ms sv t] by auto
next
  case (Cons e epochs)
  from Cons.prems obtain t1 pos1 stop t2 where
    loop: "train_loop ms v sv (val_dataloader dm) (emit t [PrintEpoch e]) pos 0
             (train_dataloader dm e) = Inr (t1, pos1, stop)"
    and lr: "epoch_lr t1 = Inr t2"
    and res: "(if stop then Inr t2 else fit_epochs ms v sv dm t2 pos1 epochs) = Inr t'"
    by (auto split: sum.splits)
  show ?case
  proof (rule epoch_run_ok[OF loop lr])
    fix new
    assume r: "run_ok ms sv t new t2" and st: "stop \<Longrightarrow> ms < global_step t2"
      and ns: "\<not> stop \<Longrightarrow> below ms new \<and> global_step t2 \<le> max (global_step t) ms"
    show ?thesis
    proof (cases stop)
      case True
      with res r show ?thesis by auto
    next
      case False
      with res have "fit_epochs ms v sv dm t2 pos1 epochs = Inr t'" by simp
      from Cons.IH[OF this] obtain new' where r': "run_ok ms sv t2 new' t'" ..
      from ns[OF False] have "run_ok ms sv t (new @ new') t'"
        by (intro run_ok_trans[OF r _ _ r']) simp_all
      then show ?thesis ..
    qed
  qed
qed

lemma fit_epochs_Inl:
  assumes "fit_epochs ms v sv dm t pos epochs = Inl (err, t')"
  shows "\<exists>new. raise_ok ms t new t' \<and>
     (err = ZeroDivisionError \<longrightarrow>
        accumulate_grad_batches t = 0 \<or> lr_step t = LrEvery 0 \<or> sv = 0 \<or> v = 0)"
  using assms
proof (induction epochs arbitrary: t pos)
  case Nil
  then show ?case by simp
next
  case (Cons e epochs)
  let ?t0 = "emit t [PrintEpoch e]"
  have g0: "global_step ?t0 = global_step t" "lr_step ?t0 = lr_step t"
    "accumulate_grad_batches ?t0 = accumulate_grad_batches t"
    by (simp_all add: emit_def)
  show ?case
  proof (cases "train_loop ms v sv (val_dataloader dm) ?t0 pos 0 (train_dataloader dm e)")
    case (Inl x)
    with Cons.prems have loop: "train_loop ms v sv (val_dataloader dm) ?t0 pos 0
        (train_dataloader dm e) = Inl (err, t')" by simp
    from train_loop_Inl[OF loop] obtain new1 where
      r1: "raise_ok ms ?t0 new1 t'"
      and z: "err = ZeroDivisionError \<longrightarrow>
        accumulate_grad_batches ?t0 = 0 \<or> lr_step ?t0 = LrEvery 0 \<or> sv = 0 \<or> v = 0"
      by blast
    have "raise_ok ms t ([PrintEpoch e] @ new1) t'"
      by (rule raise_ok_trans[OF run_ok_print below_print _ r1]) (simp add: g0)
    then show ?thesis using z g0 by auto
  next
    case (Inr res)
    then obtain t1 pos1 stop where
      loop: "train_loop ms v sv (val_dataloader dm) ?t0 pos 0
               (train_dataloader dm e) = Inr (t1, pos1, stop)"
      by (cases res) auto
    from train_loop_Inr[OF loop] obtain new1 where
      r1: "run_ok ms sv ?t0 new1 t1" by blast
    have r01: "run_ok ms sv t ([PrintEpoch e] @ new1) t1"
      by (rule run_ok_trans[OF run_ok_print below_print _ r1]) (simp add: g0)
    show ?thesis
    proof (cases "epoch_lr t1")
      case (Inl y)
      with Cons.prems loop have "epoch_lr t1 = Inl (err, t')" by simp
      from epoch_lr_Inl[OF this] have "t' = t1" "err = AttributeError" by simp_all
      with run_ok_imp_raise_ok[OF r01] show ?thesis by auto
    next
      case (Inr t2)
      show ?thesis
      proof (rule epoch_run_ok[OF loop Inr])
        fix new
        assume r: "run_ok ms sv t new t2" and st: "stop \<Longrightarrow> ms < global_step t2"
          and ns: "\<not> stop \<Longrightarrow> below ms new \<and> global_step t2 \<le> max (global_step t) ms"
        from Cons.prems loop Inr have "\<not> stop"
          and rest: "fit_epochs ms v sv dm t2 pos1 epochs = Inl (err, t')"
          by (auto split: if_splits)
        from Cons.IH[OF rest] obtain new' where
          r': "raise_ok ms t2 new' t'"
          and z: "err = ZeroDivisionError \<longrightarrow>
            accumulate_grad_batches t2 = 0 \<or> lr_step t2 = LrEvery 0 \<or> sv = 0 \<or> v = 0"
          by blast
        from ns[OF \<open>\<not> stop\<close>] have "raise_ok ms t (new @ new') t'"
          by (intro raise_ok_trans[OF r _ _ r']) simp_all
        moreover have "lr_step t2 = lr_step t" "accumulate_grad_batches t2 = accumulate_grad_batches t"
          using r by (simp_all add: run_ok_def)
        ultimately show ?thesis using z by auto
      qed
    qed
  qed
qed

text \<open>What holds of \<open>fit\<close> whether it returns or raises.\<close>

lemma fit_final:
  "\<exists>new. raise_ok ms (t\<lparr>global_step := 0\<rparr>) new (final (fit t me ms v sv dm))"
proof (cases "fit t me ms v sv dm")
  case (Inl x)
  then obtain err t' where "fit t me ms v sv dm = Inl (err, t')" by (cases x) auto
  then show ?thesis using fit_epochs_Inl[of ms v sv dm "t\<lparr>global_step := 0\<rparr>" 0 _ err t']
    by (auto simp: fit_def)
next
  case (Inr t')
  then show ?thesis using fit_epochs_Inr[of ms v sv dm "t\<lparr>global_step := 0\<rparr>" 0 _ t']
    by (auto simp: fit_def dest: run_ok_imp_raise_ok)
qed

lemma step_lr_sched_ok:
  assumes "sched_ok t"
  shows "\<exists>sched. set sched \<subseteq> {SchedStep} \<and> step_lr t = Inr (t\<lparr>events := events t @ sched\<rparr>)"
proof (cases "lr_step t")
  case LrNone
  then have "step_lr t = Inr (t\<lparr>events := events t @ []\<rparr>)" by (simp add: step_lr_def)
  then show ?thesis by (intro exI[of _ "[]"]) simp
next
  case LrEpoch
  then have "step_lr t = Inr (t\<lparr>events := events t @ []\<rparr>)" by (simp add: step_lr_def)
  then show ?thesis by (intro exI[of _ "[]"]) simp
next
  case (LrEvery n)
  with assms have n: "n \<noteq> 0" "lr_scheduler t" by (auto simp: sched_ok_def)
  show ?thesis
  proof (cases "global_step t mod n = 0")
    case True
    with LrEvery n have "step_lr t = Inr (t\<lparr>events := events t @ [SchedStep]\<rparr>)"
      by (simp add: step_lr_def emit_def)
    then show ?thesis by (intro exI[of _ "[SchedStep]"]) simp
  next
    case False
    with LrEvery n have "step_lr t = Inr (t\<lparr>events := events t @ []\<rparr>)"
      by (simp add: step_lr_def)
    then show ?thesis by (intro exI[of _ "[]"]) simp
  qed
qed

lemma epoch_lr_sched_ok:
  assumes "sched_ok t"
  shows "\<exists>sched. set sched \<subseteq> {SchedStep} \<and> epoch_lr t = Inr (t\<lparr>events := events t @ sched\<rparr>)"
proof (cases "lr_step t = LrEpoch")
  case True
  with assms have "epoch_lr t = Inr (t\<lparr>events := events t @ [SchedStep]\<rparr>)"
    by (simp add: epoch_lr_def emit_def sched_ok_def)
  then show ?thesis by (intro exI[of _ "[SchedStep]"]) simp
next
  case False
  then have "epoch_lr t = Inr (t\<lparr>events := events t @ []\<rparr>)"
    by (cases "lr_step t") (simp_all add: epoch_lr_def)
  then show ?thesis by (intro exI[of _ "[]"]) simp
qed

lemma sched_ok_update [simp]:
  "sched_ok (t\<lparr>global_step := g\<rparr>) = sched_ok t" "sched_ok (t\<lparr>grads := gs\<rparr>) = sched_ok t"
  "sched_ok (t\<lparr>events := es\<rparr>) = sched_ok t"
  by (simp_all add: sched_ok_def)

lemma loop_body_stops:
  assumes acc: "accumulate_grad_batches t \<noteq> 0" and ok: "sched_ok t"
    and ms: "ms < global_step t + 1"
  shows "\<exists>sched. set sched \<subseteq> {SchedStep} \<and>
     loop_body ms v sv vs t pos i b =
       Inr (t\<lparr>grads := [b], global_step := global_step t + 1,
              events := events t @ train_events t b @ sched\<rparr>, pos, True)"
proof -
  let ?t1 = "t\<lparr>grads := [b], events := events t @ train_events t b,
               global_step := global_step t + 1\<rparr>"
  from ok have "sched_ok ?t1" by simp
  from step_lr_sched_ok[OF this] obtain sched where
    s: "set sched \<subseteq> {SchedStep}" "step_lr ?t1 = Inr (?t1\<lparr>events := events ?t1 @ sched\<rparr>)"
    by blast
  have "loop_body ms v sv vs t pos i b =
       Inr (t\<lparr>grads := [b], global_step := global_step t + 1,
              events := events t @ train_events t b @ sched\<rparr>, pos, True)"
    using acc ms s(2) by (simp add: loop_body_def training_step_eq)
  with s(1) show ?thesis by blast
qed

lemma loop_body_zero_div:
  assumes ok: "sched_ok t"
    and z: "accumulate_grad_batches t = 0 \<or> (\<not> ms < global_step t + 1 \<and> (sv = 0 \<or> v = 0))"
  shows "\<exists>t'. loop_body ms v sv vs t pos i b = Inl (ZeroDivisionError, t')"
proof (cases "accumulate_grad_batches t = 0")
  case True
  then show ?thesis by (simp add: loop_body_def training_step_eq)
next
  case False
  with z have ns: "\<not> ms < global_step t + 1" and sv: "sv = 0 \<or> v = 0" by auto
  let ?t1 = "t\<lparr>grads := [b], events := events t @ train_events t b,
               global_step := global_step t + 1\<rparr>"
  from ok have "sched_ok ?t1" by simp
  from step_lr_sched_ok[OF this] obtain sched where
    s: "step_lr ?t1 = Inr (?t1\<lparr>events := events ?t1 @ sched\<rparr>)"
    by blast
  show ?thesis
    using False ns sv s by (auto simp: loop_body_def training_step_eq Let_def)
qed

lemma upt_nat_Cons: "0 < me \<Longrightarrow> [0..<nat me] = 0 # [1..<nat me]"
  by (simp add: upt_conv_Cons)

lemma fit_first_step_stops:
  assumes me: "0 < me" and dl: "train_dataloader dm 0 = b # bs"
    and acc: "accumulate_grad_batches t \<noteq> 0" and ok: "sched_ok t" and ms: "ms < 1"
  shows "\<exists>t' sched. fit t me ms v sv dm = Inr t' \<and> global_step t' = 1 \<and> grads t' = [b] \<and>
     set sched \<subseteq> {SchedStep} \<and>
     events t' = events t @
       [PrintEpoch 0, ZeroGrad, Backward b, ClipGrad, OptStep [b], LogTrain 0] @ sched"
proof -
  let ?t0 = "emit (t\<lparr>global_step := 0\<rparr>) [PrintEpoch 0]"
  have t0: "accumulate_grad_batches ?t0 \<noteq> 0" "sched_ok ?t0" "ms < global_step ?t0 + 1"
    using acc ok ms by (simp_all add: emit_def)
  from loop_body_stops[OF t0, of v sv "val_dataloader dm" 0 0 b] obtain s1 where
    s1: "set s1 \<subseteq> {SchedStep}"
    and body: "loop_body ms v sv (val_dataloader dm) ?t0 0 0 b =
       Inr (?t0\<lparr>grads := [b], global_step := global_step ?t0 + 1,
              events := events ?t0 @ train_events ?t0 b @ s1\<rparr>, 0, True)"
    by blast
  let ?t1 = "?t0\<lparr>grads := [b], global_step := global_step ?t0 + 1,
              events := events ?t0 @ train_events ?t0 b @ s1\<rparr>"
  have "sched_ok ?t1" using ok by (simp add: emit_def)
  from epoch_lr_sched_ok[OF this] obtain s2 where
    s2: "set s2 \<subseteq> {SchedStep}" and lr: "epoch_lr ?t1 = Inr (?t1\<lparr>events := events ?t1 @ s2\<rparr>)"
    by blast
  have "fit t me ms v sv dm = Inr (?t1\<lparr>events := events ?t1 @ s2\<rparr>)"
    using body lr by (simp add: fit_def upt_nat_Cons[OF me] dl)
  moreover have "events (?t1\<lparr>events := events ?t1 @ s2\<rparr>) = events t @
       [PrintEpoch 0, ZeroGrad, Backward b, ClipGrad, OptStep [b], LogTrain 0] @ (s1 @ s2)"
    by (simp add: emit_def train_events_def)
  moreover have "set (s1 @ s2) \<subseteq> {SchedStep}" using s1 s2 by simp
  moreover have "global_step (?t1\<lparr>events := events ?t1 @ s2\<rparr>) = 1"
    "grads (?t1\<lparr>events := events ?t1 @ s2\<rparr>) = [b]" by (simp_all add: emit_def)
  ultimately show ?thesis by blast
qed

lemma train_loop_extends:
  "prefix (events t) (events (loop_final (train_loop ms v sv vs t pos i bs)))"
proof (cases "train_loop ms v sv vs t pos i bs")
  case (Inl x)
  then obtain err t' where r: "train_loop ms v sv vs t pos i bs = Inl (err, t')" by (cases x) auto
  from train_loop_Inl[OF r] show ?thesis unfolding r by (auto simp: raise_ok_def)
next
  case (Inr y)
  then obtain t' pos' stop where r: "train_loop ms v sv vs t pos i bs = Inr (t', pos', stop)"
    by (cases y) auto
  from train_loop_Inr[OF r] show ?thesis unfolding r by (auto simp: run_ok_def)
qed

lemma epoch_lr_extends: "prefix (events t) (events (final (epoch_lr t)))"
  by (cases "lr_step t") (simp_all add: epoch_lr_def emit_def)

lemma fit_epochs_extends:
  "prefix (events t) (events (final (fit_epochs ms v sv dm t pos es)))"
proof (cases "fit_epochs ms v sv dm t pos es")
  case (Inl x)
  then obtain err t' where r: "fit_epochs ms v sv dm t pos es = Inl (err, t')" by (cases x) auto
  from fit_epochs_Inl[OF r] show ?thesis unfolding r by (auto simp: raise_ok_def)
next
  case (Inr t')
  from fit_epochs_Inr[OF Inr] show ?thesis unfolding Inr by (auto simp: run_ok_def)
qed

lemma loop_body_extends:
  assumes acc: "accumulate_grad_batches t \<noteq> 0"
  shows "prefix (events t @ train_events t b) (events (loop_final (loop_body ms v sv vs t pos i b)))"
proof (cases "loop_body ms v sv vs t pos i b")
  case (Inl x)
  then obtain err t' where r: "loop_body ms v sv vs t pos i b = Inl (err, t')" by (cases x) auto
  show ?thesis
  proof (rule loop_body_Inl[OF r])
    fix new
    assume "raise_ok ms t new t'" and "accumulate_grad_batches t \<noteq> 0 \<Longrightarrow> prefix (train_events t b) new"
    with acc show ?thesis unfolding r by (simp add: raise_ok_def)
  qed
next
  case (Inr y)
  then obtain t' pos' stop where r: "loop_body ms v sv vs t pos i b = Inr (t', pos', stop)"
    by (cases y) auto
  show ?thesis
    by (rule loop_body_Inr[OF r]) (simp add: r)
qed

lemma train_loop_first_extends:
  assumes acc: "accumulate_grad_batches t \<noteq> 0"
  shows "prefix (events t @ train_events t b)
           (events (loop_final (train_loop ms v sv vs t pos i (b # bs))))"
proof (cases "loop_body ms v sv vs t pos i b")
  case (Inl x)
  with loop_body_extends[OF acc, of b ms v sv vs pos i] show ?thesis by simp
next
  case (Inr y)
  then obtain t1 pos1 s1 where r: "loop_body ms v sv vs t pos i b = Inr (t1, pos1, s1)"
    by (cases y) auto
  from loop_body_extends[OF acc, of b ms v sv vs pos i]
  have p1: "prefix (events t @ train_events t b) (events t1)" by (simp add: r)
  show ?thesis
  proof (cases s1)
    case True
    with p1 r show ?thesis by simp
  next
    case False
    with r have "train_loop ms v sv vs t pos i (b # bs) = train_loop ms v sv vs t1 pos1 (i + 1) bs"
      by simp
    with train_loop_extends[of t1 ms v sv vs pos1 "i + 1" bs] p1 show ?thesis
      by (metis prefix_order.trans)
  qed
qed

lemma fit_epochs_first_extends:
  assumes acc: "accumulate_grad_batches t \<noteq> 0" and dl: "train_dataloader dm e = b # bs"
  shows "prefix (events t @ PrintEpoch e # train_events t b)
           (events (final (fit_epochs ms v sv dm t pos (e # es))))"
proof -
  let ?t0 = "emit t [PrintEpoch e]"
  let ?r = "train_loop ms v sv (val_dataloader dm) ?t0 pos 0 (b # bs)"
  have "accumulate_grad_batches ?t0 \<noteq> 0" using acc by (simp add: emit_def)
  from train_loop_first_extends[OF this, of b ms v sv "val_dataloader dm" pos 0 bs]
  have p0: "prefix (events t @ PrintEpoch e # train_events t b) (events (loop_final ?r))"
    by (simp add: emit_def train_events_def)
  show ?thesis
  proof (cases ?r)
    case (Inl x)
    then obtain err t' where r: "?r = Inl (err, t')" by (cases x) auto
    with p0 show ?thesis by (simp add: dl)
  next
    case (Inr y)
    then obtain t1 pos1 stop where r: "?r = Inr (t1, pos1, stop)" by (cases y) auto
    with p0 have p1: "prefix (events t @ PrintEpoch e # train_events t b) (events t1)" by simp
    show ?thesis
    proof (cases "epoch_lr t1")
      case (Inl x)
      then obtain err t' where l: "epoch_lr t1 = Inl (err, t')" by (cases x) auto
      with epoch_lr_Inl[OF l] p1 r show ?thesis by (simp add: dl)
    next
      case (Inr t2)
      with epoch_lr_extends[of t1] have p2: "prefix (events t1) (events t2)" by simp
      show ?thesis
      proof (cases stop)
        case True
        with p1 p2 r Inr show ?thesis by (simp add: dl)
      next
        case False
        with r Inr have "fit_epochs ms v sv dm t pos (e # es) = fit_epochs ms v sv dm t2 pos1 es"
          by (simp add: dl)
        with fit_epochs_extends[of t2 ms v sv dm pos1 es] p1 p2 show ?thesis
          by (metis prefix_order.trans)
      qed
    qed
  qed
qed

lemma sched_closes_Nil: "sched_closes []"
  by (simp add: sched_closes_def)

lemma sched_closes_epoch:
  assumes A: "SchedStep \<notin> set A" and B: "sched_closes B"
    and hd: "B = [] \<or> (\<exists>e r. B = PrintEpoch e # r)"
  shows "sched_closes (A @ SchedStep # B)"
  unfolding sched_closes_def
proof (intro allI impI)
  fix pre post
  assume eq: "A @ SchedStep # B = pre @ SchedStep # post"
  then consider us where "A = pre @ us" "us @ SchedStep # B = SchedStep # post"
    | us where "A @ us = pre" "SchedStep # B = us @ SchedStep # post"
    by (auto simp: append_eq_append_conv2)
  then show "post = [] \<or> (\<exists>e post'. post = PrintEpoch e # post')"
  proof cases
    case 1
    show ?thesis
    proof (cases us)
      case Nil
      with 1 hd show ?thesis by simp
    next
      case (Cons u us')
      with 1 have "SchedStep \<in> set A" by simp
      with A show ?thesis by simp
    qed
  next
    case 2
    show ?thesis
    proof (cases us)
      case Nil
      with 2 hd show ?thesis by simp
    next
      case (Cons u us')
      with 2 have "B = us' @ SchedStep # post" by simp
      with B show ?thesis unfolding sched_closes_def by blast
    qed
  qed
qed

lemma no_marks_no_sched: "filter is_epoch_mark new = [] \<Longrightarrow> SchedStep \<notin> set new"
  by (auto simp: filter_empty_conv)

lemma fit_epochs_marks:
  assumes "lr_step t = LrEpoch" and "fit_epochs ms v sv dm t pos epochs = Inr t'"
  shows "\<exists>new k. events t' = events t @ new \<and> k \<le> length epochs \<and>
     (k = length epochs \<or> ms < global_step t') \<and>
     filter is_epoch_mark new = concat (map (\<lambda>e. [PrintEpoch e, SchedStep]) (take k epochs)) \<and>
     sched_closes new \<and> (new = [] \<or> (\<exists>e r. new = PrintEpoch e # r))"
  using assms
proof (induction epochs arbitrary: t pos)
  case Nil
  then have "t' = t" by simp
  then show ?case
    by (intro exI[of _ "[]"] exI[of _ 0]) (simp add: sched_closes_Nil)
next
  case (Cons e epochs)
  let ?t0 = "emit t [PrintEpoch e]"
  from Cons.prems(2) obtain t1 pos1 stop t2 where
    loop: "train_loop ms v sv (val_dataloader dm) ?t0 pos 0 (train_dataloader dm e)
             = Inr (t1, pos1, stop)"
    and lr: "epoch_lr t1 = Inr t2"
    and res: "(if stop then Inr t2 else fit_epochs ms v sv dm t2 pos1 epochs) = Inr t'"
    by (auto split: sum.splits)
  have lr0: "lr_step ?t0 = LrEpoch" using Cons.prems(1) by (simp add: emit_def)
  from train_loop_Inr[OF loop] lr0 obtain new1 where
    r1: "run_ok ms sv ?t0 new1 t1" and st: "stop \<longrightarrow> ms < global_step t1"
    and m1: "filter is_epoch_mark new1 = []"
    by blast
  from r1 lr0 have lr1: "lr_step t1 = LrEpoch" and ev1: "events t1 = events t @ PrintEpoch e # new1"
    by (simp_all add: run_ok_def emit_def)
  have t2: "t2 = t1\<lparr>events := events t1 @ [SchedStep]\<rparr>"
    by (rule epoch_lr_Inr[OF lr]) (simp add: lr1)
  have ev2: "events t2 = events t @ (PrintEpoch e # new1) @ SchedStep # []"
    and g2: "global_step t2 = global_step t1" and lr2: "lr_step t2 = LrEpoch"
    using t2 ev1 lr1 by simp_all
  have ns: "SchedStep \<notin> set (PrintEpoch e # new1)"
    using no_marks_no_sched[OF m1] by simp
  show ?case
  proof (cases stop)
    case True
    with res have "t' = t2" by simp
    moreover have "sched_closes ((PrintEpoch e # new1) @ SchedStep # [])"
      by (rule sched_closes_epoch[OF ns sched_closes_Nil]) simp
    ultimately show ?thesis using ev2 g2 st True m1
      by (intro exI[of _ "(PrintEpoch e # new1) @ SchedStep # []"] exI[of _ 1]) simp
  next
    case False
    with res have rest: "fit_epochs ms v sv dm t2 pos1 epochs = Inr t'" by simp
    from Cons.IH[OF lr2 rest] obtain new' k where
      ev': "events t' = events t2 @ new'" and k: "k \<le> length epochs"
      and kk: "k = length epochs \<or> ms < global_step t'"
      and m': "filter is_epoch_mark new' =
                 concat (map (\<lambda>e. [PrintEpoch e, SchedStep]) (take k epochs))"
      and c': "sched_closes new'" and h': "new' = [] \<or> (\<exists>e r. new' = PrintEpoch e # r)"
      by blast
    have "sched_closes ((PrintEpoch e # new1) @ SchedStep # new')"
      by (rule sched_closes_epoch[OF ns c' h'])
    then show ?thesis using ev' ev2 k kk m' m1
      by (intro exI[of _ "(PrintEpoch e # new1) @ SchedStep # new'"] exI[of _ "Suc k"]) simp
  qed
qed

section \<open>Lemmas about the logger\<close>

subsection \<open>Dictionaries\<close>

lemma dict_set_keys: "fst ` set (dict_set d k v) = insert k (fst ` set d)"
  by (induction d k v rule: dict_set.induct) auto

lemma dict_set_distinct: "distinct (map fst d) \<Longrightarrow> distinct (map fst (dict_set d k v))"
proof (induction d k v rule: dict_set.induct)
  case (1 k v)
  then show ?case by simp
next
  case (2 k' v' d k v)
  then show ?case using dict_set_keys[of d k v] by (auto simp: image_iff)
qed

lemma dict_set_subset: "set (dict_set d k v) \<subseteq> insert (k, v) (set d)"
  by (induction d k v rule: dict_set.induct) auto

lemma dict_set_entries:
  "distinct (map fst d) \<Longrightarrow> set (dict_set d k v) = insert (k, v) {e \<in> set d. fst e \<noteq> k}"
proof (induction d k v rule: dict_set.induct)
  case (1 k v)
  then show ?case by simp
next
  case (2 k' v' d k v)
  then show ?case by (auto simp: image_iff)
qed

lemma dict_update_distinct:
  "distinct (map fst d) \<Longrightarrow> distinct (map fst (dict_update d items))"
  unfolding dict_update_def
  by (induction items arbitrary: d) (auto simp: dict_set_distinct)

lemma dict_update_subset: "set (dict_update d items) \<subseteq> set d \<union> set items"
  unfolding dict_update_def
proof (induction items arbitrary: d)
  case Nil
  then show ?case by simp
next
  case (Cons kv items)
  obtain k v where kv: "kv = (k, v)" by (cases kv)
  from Cons[of "dict_set d k v"] dict_set_subset[of d k v] show ?case
    by (auto simp: kv)
qed

lemma dict_of_items_distinct: "distinct (map fst (dict_of_items items))"
  unfolding dict_of_items_def by (rule dict_update_distinct) simp

subsection \<open>Coercion of the hyperparameters\<close>

lemma coerce_fold:
  assumes "distinct (map fst d)"
    and "\<forall>(k, a) \<in> set d. (\<exists>s. a = AStr s) \<or> (k, a) \<in> set xs"
  shows "\<forall>(k, a) \<in> set (foldl (\<lambda>d (key, val). case val of AStr s \<Rightarrow> d
            | _ \<Rightarrow> dict_set d key (AStr (py_str val))) d xs). \<exists>s. a = AStr s"
  using assms
proof (induction xs arbitrary: d)
  case Nil
  then show ?case by auto
next
  case (Cons kv xs)
  obtain key val where kv: "kv = (key, val)" by (cases kv)
  let ?f = "\<lambda>d (key, val). case val of AStr s \<Rightarrow> d | _ \<Rightarrow> dict_set d key (AStr (py_str val))"
  let ?d' = "?f d (key, val)"
  have dist: "distinct (map fst ?d')"
    using Cons.prems(1) by (cases val) (simp_all add: dict_set_distinct)
  have inv: "\<forall>(k, a) \<in> set ?d'. (\<exists>s. a = AStr s) \<or> (k, a) \<in> set xs"
  proof (cases "\<exists>s. val = AStr s")
    case True
    then have "?d' = d" by auto
    with Cons.prems(2) True show ?thesis by (auto simp: kv)
  next
    case False
    then have d': "?d' = dict_set d key (AStr (py_str val))" by (cases val) simp_all
    show ?thesis
      unfolding d' dict_set_entries[OF Cons.prems(1)] using Cons.prems(2) by (auto simp: kv)
  qed
  from Cons.IH[OF dist inv] show ?case by (simp add: kv)
qed

lemma coerce_hparams_str:
  assumes "distinct (map fst h)"
  shows "\<forall>(k, a) \<in> set (coerce_hparams h). \<exists>s. a = AStr s"
  unfolding coerce_hparams_def by (rule coerce_fold[OF assms]) auto

lemma init_hparams:
  "hparams (snd (CustomLogger_init fs dir name ver cfg)) =
     map (\<lambda>(k, a). (k, Atom a))
       (coerce_hparams (flatten_dict (map (\<lambda>(k, a). (k, Atom a)) (snd (snd (folder_structure fs dir
          (dict_set cfg ''save_dir'' (AStr dir)))))) [] ''/''))"
  by (simp add: CustomLogger_init_def Let_def split: prod.splits)

lemma all_str_init: "all_str (hparams (snd (CustomLogger_init fs dir name ver cfg)))"
proof -
  let ?h = "flatten_dict (map (\<lambda>(k, a). (k, Atom a)) (snd (snd (folder_structure fs dir
          (dict_set cfg ''save_dir'' (AStr dir)))))) [] ''/''"
  have "distinct (map fst ?h)" unfolding flatten_dict_def by (rule dict_of_items_distinct)
  from coerce_hparams_str[OF this] show ?thesis
    unfolding init_hparams all_str_def by (auto simp: list_all_iff)
qed

lemma all_str_update:
  assumes "all_str (hparams l)" and "all_str hp"
  shows "all_str (hparams (update_hyperparams l hp ms))"
  using assms dict_update_subset[of "hparams l" hp]
  by (auto simp: all_str_def list_all_iff update_hyperparams_def)

subsection \<open>Run directories\<close>

lemma digit_val_digit_char: "d < 10 \<Longrightarrow> digit_val (digit_char d) = d"
proof -
  assume "d < 10"
  then have "d \<in> {0, 1, 2, 3, 4, 5, 6, 7, 8, 9}" by auto
  then show ?thesis by (auto simp: digit_val_def digit_char_def)
qed

lemma nat_of_str_str_nat: "nat_of_str (str_nat n) = n"
proof (induction n rule: str_nat.induct)
  case (1 n)
  show ?case
  proof (cases "n < 10")
    case True
    then have "str_nat n = [digit_char n]" by (subst str_nat.simps) simp
    with True show ?thesis by (simp add: nat_of_str_def digit_val_digit_char)
  next
    case False
    then have "str_nat n = str_nat (n div 10) @ [digit_char (n mod 10)]"
      by (subst str_nat.simps) simp
    with 1[OF False] show ?thesis by (simp add: nat_of_str_def digit_val_digit_char)
  qed
qed

lemma str_nat_inj: "str_nat i = str_nat j \<longleftrightarrow> i = j"
  by (metis nat_of_str_str_nat)

lemma run_dir_inj: "run_dir base i = run_dir base j \<longleftrightarrow> i = j"
  by (simp add: run_dir_def str_nat_inj)

lemma str_nat_0: "str_nat 0 = ''0''"
  by (subst str_nat.simps) (simp add: digit_char_def)

lemma str_nat_1: "str_nat (Suc 0) = ''1''"
  by (subst str_nat.simps) (simp add: digit_char_def)

lemma run_dir_0: "run_dir base 0 = base @ ''/run0''" and run_dir_1: "run_dir base (Suc 0) = base @ ''/run1''"
  by (simp_all add: run_dir_def str_nat_0 str_nat_1)

text \<open>The loop returns the first free name at or after the one it starts from.\<close>

lemma folder_loop_spec:
  "\<exists>k\<ge>j. folder_loop fs base (run_dir base j) (Suc j) = run_dir base k \<and>
     run_dir base k \<notin> set fs \<and> (\<forall>m. j \<le> m \<and> m < k \<longrightarrow> run_dir base m \<in> set fs)"
proof -
  have "\<forall>j. p = run_dir base j \<and> i = Suc j \<longrightarrow>
      (\<exists>k\<ge>j. folder_loop fs base p i = run_dir base k \<and>
         run_dir base k \<notin> set fs \<and> (\<forall>m. j \<le> m \<and> m < k \<longrightarrow> run_dir base m \<in> set fs))" for p i
  proof (induction fs base p i rule: folder_loop.induct)
    case (1 fs base p i)
    show ?case
    proof (intro allI impI)
      fix j assume pj: "p = run_dir base j \<and> i = Suc j"
      show "\<exists>k\<ge>j. folder_loop fs base p i = run_dir base k \<and>
         run_dir base k \<notin> set fs \<and> (\<forall>m. j \<le> m \<and> m < k \<longrightarrow> run_dir base m \<in> set fs)"
      proof (cases "path_exists fs p")
        case False
        then have "folder_loop fs base p i = p" by (subst folder_loop.simps) simp
        with False pj show ?thesis by (intro exI[of _ j]) (auto simp: path_exists_def)
      next
        case True
        then have unf: "folder_loop fs base p i =
            folder_loop fs base (base @ ''/run'' @ str_nat i) (i + 1)"
          by (subst folder_loop.simps) simp
        from pj have next_: "base @ ''/run'' @ str_nat i = run_dir base (Suc j) \<and> i + 1 = Suc (Suc j)"
          by (simp add: run_dir_def)
        from 1[OF True] next_ obtain k where k: "Suc j \<le> k"
          "folder_loop fs base (base @ ''/run'' @ str_nat i) (i + 1) = run_dir base k"
          "run_dir base k \<notin> set fs" "\<forall>m. Suc j \<le> m \<and> m < k \<longrightarrow> run_dir base m \<in> set fs"
          by blast
        have "\<forall>m. j \<le> m \<and> m < k \<longrightarrow> run_dir base m \<in> set fs"
        proof (intro allI impI)
          fix m assume m: "j \<le> m \<and> m < k"
          show "run_dir base m \<in> set fs"
          proof (cases "m = j")
            case True
            with pj \<open>path_exists fs p\<close> show ?thesis by (simp add: path_exists_def)
          next
            case False
            with m k(4) show ?thesis by simp
          qed
        qed
        with k unf show ?thesis by (intro exI[of _ k]) simp
      qed
    qed
  qed
  then show ?thesis by blast
qed

lemma makedirs_set: "set (makedirs fs p) = set fs \<union> set (parent_dirs p) \<union> {p}"
  by (auto simp: makedirs_def path_exists_def)

lemma write_file_set: "set (write_file fs p) = insert p (set fs)"
  by (auto simp: write_file_def path_exists_def)

lemma parent_dirs_take: "q \<in> set (parent_dirs p) \<Longrightarrow> \<exists>n<length p. q = take n p"
  by (auto simp: parent_dirs_def)

lemma init_save_dir:
  "save_dir (snd (CustomLogger_init fs dir name ver cfg)) =
     folder_loop fs dir (run_dir dir 0) (Suc 0)"
  by (simp add: CustomLogger_init_def folder_structure_def Let_def run_dir_0)

lemma init_fs:
  "set (fst (CustomLogger_init fs dir name ver cfg)) =
     (let sd = save_dir (snd (CustomLogger_init fs dir name ver cfg)) in
      set fs \<union> set (parent_dirs sd) \<union> {sd} \<union> set (parent_dirs (sd @ ''/checkpoints'')) \<union>
        {sd @ ''/checkpoints'', sd @ ''/config.yaml''})"
  by (auto simp: CustomLogger_init_def folder_structure_def Let_def run_dir_0
      makedirs_set write_file_set)

lemma run1_not_parent:
  assumes "q \<in> set (parent_dirs (base @ ''/run0'' @ rest))"
  shows "q \<noteq> base @ ''/run1''"
proof
  assume q: "q = base @ ''/run1''"
  from parent_dirs_take[OF assms] obtain n where
    n: "n < length (base @ ''/run0'' @ rest)" "q = take n (base @ ''/run0'' @ rest)" by blast
  from n have "length q = n" by simp
  with q have "n = length base + 5" by simp
  with n(2) have "q = base @ ''/run0''" by simp
  with q show False by simp
qed

lemma init_twice:
  assumes i1: "CustomLogger_init fs dir n1 v1 cfg1 = (fs1, l1)"
    and i2: "CustomLogger_init fs1 dir n2 v2 cfg2 = (fs2, l2)"
  obtains k k' where
    "save_dir l1 = run_dir dir k" "run_dir dir k \<notin> set fs" "\<forall>m<k. run_dir dir m \<in> set fs"
    "save_dir l2 = run_dir dir k'" "run_dir dir k' \<notin> set fs1" "\<forall>m<k'. run_dir dir m \<in> set fs1"
    "set fs1 = set fs \<union> set (parent_dirs (save_dir l1)) \<union> {save_dir l1} \<union>
       set (parent_dirs (save_dir l1 @ ''/checkpoints'')) \<union>
       {save_dir l1 @ ''/checkpoints'', save_dir l1 @ ''/config.yaml''}"
proof -
  from i1 have s1: "save_dir l1 = folder_loop fs dir (run_dir dir 0) (Suc 0)"
    using init_save_dir[of fs dir n1 v1 cfg1] by simp
  from i2 have s2: "save_dir l2 = folder_loop fs1 dir (run_dir dir 0) (Suc 0)"
    using init_save_dir[of fs1 dir n2 v2 cfg2] by simp
  from folder_loop_spec[of 0 fs dir] s1 obtain k where
    k: "save_dir l1 = run_dir dir k" "run_dir dir k \<notin> set fs" "\<forall>m<k. run_dir dir m \<in> set fs"
    by auto
  from folder_loop_spec[of 0 fs1 dir] s2 obtain k' where
    k': "save_dir l2 = run_dir dir k'" "run_dir dir k' \<notin> set fs1" "\<forall>m<k'. run_dir dir m \<in> set fs1"
    by auto
  from i1 have "set fs1 = set fs \<union> set (parent_dirs (save_dir l1)) \<union> {save_dir l1} \<union>
       set (parent_dirs (save_dir l1 @ ''/checkpoints'')) \<union>
       {save_dir l1 @ ''/checkpoints'', save_dir l1 @ ''/config.yaml''}"
    using init_fs[of fs dir n1 v1 cfg1] by (simp add: Let_def)
  with k k' show ?thesis using that by blast
qed

subsection \<open>Checkpoint files\<close>

lemma digit_char_not_minus: "d < 10 \<Longrightarrow> digit_char d \<noteq> CHR ''-''"
proof -
  assume "d < 10"
  then have "d \<in> {0, 1, 2, 3, 4, 5, 6, 7, 8, 9}" by auto
  then show ?thesis by (auto simp: digit_char_def)
qed

lemma str_nat_no_minus: "CHR ''-'' \<notin> set (str_nat n)"
proof (induction n rule: str_nat.induct)
  case (1 n)
  show ?case
  proof (cases "n < 10")
    case True
    then have "str_nat n = [digit_char n]" by (subst str_nat.simps) simp
    with True show ?thesis using digit_char_not_minus[of n] by simp
  next
    case False
    then have "str_nat n = str_nat (n div 10) @ [digit_char (n mod 10)]"
      by (subst str_nat.simps) simp
    with 1[OF False] show ?thesis using digit_char_not_minus[of "n mod 10"] by simp
  qed
qed

lemma str_int_inj: "str_int i = str_int j \<longleftrightarrow> i = j"
proof
  assume eq: "str_int i = str_int j"
  have neg: False if "a < 0" "\<not> b < 0" "str_int a = str_int b" for a b
  proof -
    from that have "CHR ''-'' # str_nat (nat (- a)) = str_nat (nat b)" by (simp add: str_int_def)
    then have "CHR ''-'' \<in> set (str_nat (nat b))" by (metis list.set_intros(1))
    with str_nat_no_minus show False by blast
  qed
  show "i = j"
  proof (cases "i < 0")
    case True
    show ?thesis
    proof (cases "j < 0")
      case True
      with \<open>i < 0\<close> eq have "nat (- i) = nat (- j)" by (simp add: str_int_def str_nat_inj)
      with True \<open>i < 0\<close> show ?thesis by simp
    next
      case False
      from neg[OF \<open>i < 0\<close> False eq] show ?thesis ..
    qed
  next
    case False
    show ?thesis
    proof (cases "j < 0")
      case True
      from neg[OF True False eq[symmetric]] show ?thesis ..
    next
      case jf: False
      with False eq have "nat i = nat j" by (simp add: str_int_def str_nat_inj)
      with False jf show ?thesis by simp
    qed
  qed
qed simp

lemma checkpoint_path_inj: "checkpoint_path l g = checkpoint_path l g' \<longleftrightarrow> g = g'"
  by (simp add: checkpoint_path_def str_int_inj)

lemma checkpoint_files_set:
  "set (foldl (\<lambda>fs step. save_model fs l step) fs steps) = set fs \<union> checkpoint_path l ` set steps"
  by (induction steps arbitrary: fs) (auto simp: save_model_def write_file_set)

subsection \<open>Flattening\<close>


















section \<open>The claims about the trainer\<close>

lemmas fit_eval = fit_def loop_body_def training_step_def step_lr_def epoch_lr_def emit_def
  Let_def upt_conv_Cons demo_trainer_def demo_datamodule_def

text \<open>
  Claim C3. \<open>fit\<close> halts as soon as the global step counter exceeds \<open>max_steps\<close>, even
  mid-epoch. The training step that logs at step \<open>g\<close> leaves the counter at \<open>g + 1\<close>, so
  the counter exceeds \<open>max_steps\<close> after it exactly when \<open>max_steps \<le> g\<close>. After such a
  step the trace of \<open>fit\<close> (returned or raised) holds nothing but scheduler steps: no
  further training step, checkpoint or validation step, and no further epoch is begun.
  The counter never passes \<open>max 1 (max_steps + 1)\<close>.
\<close>

theorem fit_halts_beyond_max_steps:
  "(events (final (fit t me ms v sv dm)) = events t @ pre @ LogTrain g # post \<and> ms \<le> g
      \<longrightarrow> set post \<subseteq> {SchedStep}) \<and>
   global_step (final (fit t me ms v sv dm)) \<le> max 1 (ms + 1)"
proof -
  from fit_final[of ms t me v sv dm] obtain new where
    r: "raise_ok ms (t\<lparr>global_step := 0\<rparr>) new (final (fit t me ms v sv dm))" ..
  then have ev: "events (final (fit t me ms v sv dm)) = events t @ new" and h: "halted ms new"
    and g: "global_step (final (fit t me ms v sv dm)) \<le> max 1 (ms + 1)"
    by (simp_all add: raise_ok_def)
  have "set post \<subseteq> {SchedStep}"
    if "events (final (fit t me ms v sv dm)) = events t @ pre @ LogTrain g # post" "ms \<le> g"
  proof -
    from that(1) ev have "new = pre @ LogTrain g # post" by simp
    from halted_split[OF h this that(2)] show ?thesis .
  qed
  with g show ?thesis by blast
qed

theorem fit_halts_beyond_max_steps_witness:
  "events (final (fit demo_trainer 2 1 1 1 demo_datamodule)) =
     events demo_trainer @
       [PrintEpoch 0, ZeroGrad, Backward 10, ClipGrad, OptStep [10], LogTrain 0, SaveModel 1,
        ValidationStep 20 0, ZeroGrad, Backward 11] @ LogTrain 1 # [SchedStep] \<and>
   (1::int) \<le> 1 \<and> set [SchedStep :: nat event] \<subseteq> {SchedStep} \<and>
   global_step (final (fit demo_trainer 2 1 1 1 demo_datamodule)) \<le> max 1 (1 + 1)"
proof -
  have ev: "events (final (fit demo_trainer 2 1 1 1 demo_datamodule)) =
     events demo_trainer @
       [PrintEpoch 0, ZeroGrad, Backward 10, ClipGrad, OptStep [10], LogTrain 0, SaveModel 1,
        ValidationStep 20 0, ZeroGrad, Backward 11] @ LogTrain 1 # [SchedStep]"
    by (simp add: fit_eval)
  show ?thesis
    using fit_halts_beyond_max_steps[of demo_trainer 2 1 1 1 demo_datamodule
        "[PrintEpoch 0, ZeroGrad, Backward 10, ClipGrad, OptStep [10], LogTrain 0, SaveModel 1,
          ValidationStep 20 0, ZeroGrad, Backward 11]" 1 "[SchedStep]"] ev
    by simp
qed

text \<open>
  Claim C5. In a \<open>fit\<close> call that returns and was not cut short by \<open>max_steps\<close> (its
  final global step is at most \<open>max_steps\<close>), the checkpoints saved are, in order, exactly
  those of the global steps \<open>1, ..., global_step\<close> that are multiples of
  \<open>save_every_n_steps\<close>; so the checkpoint file of step \<open>g\<close> is written exactly for
  those \<open>g\<close>. In the example, with \<open>save_every_n_steps = 5\<close> and 15 steps, they are
  5, 10 and 15.
\<close>

theorem fit_saves_at_multiples:
  assumes "fit t me ms v sv dm = Inr t'" and "global_step t' \<le> ms"
  shows "saved_steps (events t') =
           saved_steps (events t) @ filter (\<lambda>g. g mod sv = 0) [1..global_step t'] \<and>
         (events t = [] \<longrightarrow>
            (\<forall>g. checkpoint_path l g \<in> set (checkpoint_files [] l (events t')) \<longleftrightarrow>
                 1 \<le> g \<and> g \<le> global_step t' \<and> g mod sv = 0))"
proof -
  from assms(1) have "fit_epochs ms v sv dm (t\<lparr>global_step := 0\<rparr>) 0 [0..<nat me] = Inr t'"
    by (simp add: fit_def)
  from fit_epochs_Inr[OF this] obtain new where "run_ok ms sv (t\<lparr>global_step := 0\<rparr>) new t'" ..
  then have "events t' = events t @ new"
    "saved_steps new = filter (\<lambda>g. g mod sv = 0) [1..min (global_step t') ms]"
    by (simp_all add: run_ok_def)
  with assms(2) have s: "saved_steps (events t') =
      saved_steps (events t) @ filter (\<lambda>g. g mod sv = 0) [1..global_step t']"
    by (simp add: min_def)
  have "\<forall>g. checkpoint_path l g \<in> set (checkpoint_files [] l (events t')) \<longleftrightarrow>
                 1 \<le> g \<and> g \<le> global_step t' \<and> g mod sv = 0"
    if "events t = []"
    unfolding checkpoint_files_def checkpoint_files_set s
    using that by (auto simp: checkpoint_path_inj)
  with s show ?thesis by blast
qed

theorem fit_saves_at_multiples_witness:
  "fit demo_trainer 3 100 4 5 demo_datamodule =
     Inr (final (fit demo_trainer 3 100 4 5 demo_datamodule)) \<and>
   global_step (final (fit demo_trainer 3 100 4 5 demo_datamodule)) = 15 \<and>
   (15::int) \<le> 100 \<and> events demo_trainer = [] \<and>
   saved_steps (events (final (fit demo_trainer 3 100 4 5 demo_datamodule))) = [5, 10, 15] \<and>
   (\<forall>g. checkpoint_path (snd (CustomLogger_init [] ''logs'' ''exp'' ''0'' [])) g \<in>
           set (checkpoint_files [] (snd (CustomLogger_init [] ''logs'' ''exp'' ''0'' []))
                  (events (final (fit demo_trainer 3 100 4 5 demo_datamodule))))
         \<longleftrightarrow> g = 5 \<or> g = 10 \<or> g = 15)"
proof -
  have r: "fit demo_trainer 3 100 4 5 demo_datamodule =
     Inr (final (fit demo_trainer 3 100 4 5 demo_datamodule))"
    by (simp add: fit_eval)
  have g: "global_step (final (fit demo_trainer 3 100 4 5 demo_datamodule)) = 15"
    by (simp add: fit_eval)
  have e: "events demo_trainer = []" by (simp add: demo_trainer_def)
  note th = fit_saves_at_multiples[OF r, of "snd (CustomLogger_init [] ''logs'' ''exp'' ''0'' [])",
      unfolded g]
  have m: "filter (\<lambda>g. g mod 5 = 0) [1..15] = [5, 10, (15::int)]" by (simp add: upto_rec1)
  have mult: "(1 \<le> g \<and> g \<le> 15 \<and> g mod 5 = 0) \<longleftrightarrow> (g = 5 \<or> g = 10 \<or> g = 15)" for g :: int
    by presburger
  from th e m mult r g show ?thesis by simp
qed

text \<open>
  Claim C10. Every backward pass in the trace of \<open>fit\<close> comes directly after a zeroing of
  the gradients, on update and non-update steps alike; every optimizer update comes directly
  after the zeroing, the backward pass of one batch \<open>b\<close> and the clipping, and the
  gradient buffers it reads hold the gradient of \<open>b\<close> alone, whatever the accumulation
  factor.
\<close>

theorem fit_update_uses_current_batch:
  "(events (final (fit t me ms v sv dm)) = events t @ pre @ OptStep gs # post
      \<longrightarrow> (\<exists>pre' b. pre = pre' @ [ZeroGrad, Backward b, ClipGrad] \<and> gs = [b])) \<and>
   (events (final (fit t me ms v sv dm)) = events t @ pre @ Backward b # post
      \<longrightarrow> (\<exists>pre'. pre = pre' @ [ZeroGrad]))"
proof -
  from fit_final[of ms t me v sv dm] obtain new where
    r: "raise_ok ms (t\<lparr>global_step := 0\<rparr>) new (final (fit t me ms v sv dm))" ..
  then have ev: "events (final (fit t me ms v sv dm)) = events t @ new" and go: "grad_ok new"
    by (simp_all add: raise_ok_def)
  show ?thesis using go unfolding ev grad_ok_def by simp
qed

theorem fit_update_uses_current_batch_witness:
  "events (final (fit demo_trainer 1 1 3 3 demo_datamodule)) =
     events demo_trainer @ [PrintEpoch 0, ZeroGrad, Backward 10, ClipGrad] @ OptStep [10] #
       [LogTrain 0, ValidationStep 20 0, ZeroGrad, Backward 11, LogTrain 1, SchedStep] \<and>
   (\<exists>pre' b. [PrintEpoch 0, ZeroGrad, Backward 10, ClipGrad] = pre' @ [ZeroGrad, Backward b, ClipGrad]
      \<and> [10] = [b]) \<and>
   events (final (fit demo_trainer 1 1 3 3 demo_datamodule)) =
     events demo_trainer @
       [PrintEpoch 0, ZeroGrad, Backward 10, ClipGrad, OptStep [10], LogTrain 0,
        ValidationStep 20 0, ZeroGrad] @ Backward 11 # [LogTrain 1, SchedStep] \<and>
   (\<exists>pre'. [PrintEpoch 0, ZeroGrad, Backward 10, ClipGrad, OptStep [10], LogTrain 0,
        ValidationStep 20 0, ZeroGrad] = pre' @ [ZeroGrad :: nat event])"
proof -
  have ev: "events (final (fit demo_trainer 1 1 3 3 demo_datamodule)) =
       [PrintEpoch 0, ZeroGrad, Backward 10, ClipGrad, OptStep [10],
        LogTrain 0, ValidationStep 20 0, ZeroGrad, Backward 11, LogTrain 1, SchedStep]"
    by (simp add: fit_eval)
  have e0: "events demo_trainer = []" by (simp add: demo_trainer_def)
  note th = fit_update_uses_current_batch[of demo_trainer 1 1 3 3 demo_datamodule]
  from th[of "[PrintEpoch 0, ZeroGrad, Backward 10, ClipGrad]" "[10]"
      "[LogTrain 0, ValidationStep 20 0, ZeroGrad, Backward 11, LogTrain 1, SchedStep]"]
  have a: "\<exists>pre' b. [PrintEpoch 0, ZeroGrad, Backward 10, ClipGrad] = pre' @ [ZeroGrad, Backward b, ClipGrad]
      \<and> [10::nat] = [b]"
    using ev e0 by simp
  from th[of "[PrintEpoch 0, ZeroGrad, Backward 10, ClipGrad, OptStep [10], LogTrain 0,
        ValidationStep 20 0, ZeroGrad]" _ "[LogTrain 1, SchedStep]" 11]
  have b: "\<exists>pre'. [PrintEpoch 0, ZeroGrad, Backward 10, ClipGrad, OptStep [10], LogTrain 0,
        ValidationStep 20 0, ZeroGrad] = pre' @ [ZeroGrad :: nat event]"
    using ev e0 by simp
  show ?thesis using a b ev e0 by simp
qed

text \<open>
  Claim C1, as amended. With \<open>max_steps = 0\<close>, at least one epoch, a training source
  that yields a first batch \<open>b\<close>, a nonzero accumulation factor and scheduler gates that
  raise nothing, \<open>fit\<close> performs exactly one training step, on \<open>b\<close>, with one clipping
  and one optimizer update, and returns with the global step at 1: no checkpoint, no
  validation step, no further batch and no further epoch; only scheduler steps may follow.
\<close>

theorem fit_max_steps_zero:
  assumes "0 < me" and "train_dataloader dm 0 = b # bs"
    and "accumulate_grad_batches t \<noteq> 0" and "sched_ok t"
  shows "\<exists>t' sched. fit t me 0 v sv dm = Inr t' \<and> global_step t' = 1 \<and> grads t' = [b] \<and>
     set sched \<subseteq> {SchedStep} \<and>
     events t' = events t @
       [PrintEpoch 0, ZeroGrad, Backward b, ClipGrad, OptStep [b], LogTrain 0] @ sched"
  using fit_first_step_stops[OF assms, of 0] by simp

theorem fit_max_steps_zero_witness:
  "(0::int) < 1 \<and> train_dataloader demo_datamodule 0 = 10 # [11, 12, 13, 14] \<and>
   accumulate_grad_batches demo_trainer \<noteq> 0 \<and> sched_ok demo_trainer \<and>
   (\<exists>t' sched. fit demo_trainer 1 0 1 1 demo_datamodule = Inr t' \<and> global_step t' = 1 \<and>
      grads t' = [10] \<and> set sched \<subseteq> {SchedStep} \<and>
      events t' = events demo_trainer @
        [PrintEpoch 0, ZeroGrad, Backward 10, ClipGrad, OptStep [10], LogTrain 0] @ sched)"
proof -
  have h: "(0::int) < 1" "train_dataloader demo_datamodule 0 = 10 # [11, 12, 13, 14]"
    "accumulate_grad_batches demo_trainer \<noteq> 0" "sched_ok demo_trainer"
    by (simp_all add: demo_trainer_def demo_datamodule_def sched_ok_def)
  from fit_max_steps_zero[OF h, of 1 1] h show ?thesis by blast
qed

text \<open>
  Claim C1 as stated fails: with \<open>max_steps = 0\<close> the first batch is trained on in full,
  optimizer update included, before the step counter is compared with \<open>max_steps\<close>.
\<close>

theorem fit_max_steps_zero_counterexample:
  "fit demo_trainer 1 0 1 1 demo_datamodule =
     Inr \<lparr>lr_step = LrEpoch, lr_scheduler = True, accumulate_grad_batches = 2,
          global_step = 1, grads = [10],
          events = [PrintEpoch 0, ZeroGrad, Backward 10, ClipGrad, OptStep [10], LogTrain 0,
                    SchedStep]\<rparr>"
  by (simp add: fit_eval)

text \<open>
  Claim C2, as amended. For a nonzero accumulation factor, \<open>training_step\<close> clips and
  updates exactly when \<open>global_step mod accumulate_grad_batches = 0\<close>; and the first batch
  of every \<open>fit\<close> call (at least one epoch, a first batch \<open>b\<close>) is trained on at global
  step 0 with a clipping and an optimizer update, whatever the nonzero factor.
\<close>

theorem update_gate:
  assumes "accumulate_grad_batches t \<noteq> 0"
  shows "training_step t b i =
      Inr (t\<lparr>grads := [b],
             events := events t @ [ZeroGrad, Backward b] @
               (if global_step t mod accumulate_grad_batches t = 0
                then [ClipGrad, OptStep [b]] else []) @
               [LogTrain (global_step t)]\<rparr>) \<and>
    (0 < me \<and> train_dataloader dm 0 = b # bs \<longrightarrow>
       prefix (events t @ [PrintEpoch 0, ZeroGrad, Backward b, ClipGrad, OptStep [b], LogTrain 0])
         (events (final (fit t me ms v sv dm))))"
proof
  show "training_step t b i =
      Inr (t\<lparr>grads := [b],
             events := events t @ [ZeroGrad, Backward b] @
               (if global_step t mod accumulate_grad_batches t = 0
                then [ClipGrad, OptStep [b]] else []) @
               [LogTrain (global_step t)]\<rparr>)"
    using assms by (simp add: training_step_eq train_events_def)
next
  show "0 < me \<and> train_dataloader dm 0 = b # bs \<longrightarrow>
       prefix (events t @ [PrintEpoch 0, ZeroGrad, Backward b, ClipGrad, OptStep [b], LogTrain 0])
         (events (final (fit t me ms v sv dm)))"
  proof
    assume h: "0 < me \<and> train_dataloader dm 0 = b # bs"
    let ?t0 = "t\<lparr>global_step := 0\<rparr>"
    have acc0: "accumulate_grad_batches ?t0 \<noteq> 0" using assms by simp
    from fit_epochs_first_extends[OF acc0, of dm 0 b bs ms v sv 0 "[1..<nat me]"] h
    show "prefix (events t @ [PrintEpoch 0, ZeroGrad, Backward b, ClipGrad, OptStep [b], LogTrain 0])
         (events (final (fit t me ms v sv dm)))"
      by (simp add: fit_def upt_nat_Cons train_events_def)
  qed
qed

theorem update_gate_witness:
  "accumulate_grad_batches demo_trainer \<noteq> 0 \<and>
   training_step (demo_trainer\<lparr>global_step := 3\<rparr>) 11 1 =
     Inr (demo_trainer\<lparr>global_step := 3, grads := [11],
            events := [ZeroGrad, Backward 11, LogTrain 3]\<rparr>) \<and>
   (0::int) < 2 \<and> train_dataloader demo_datamodule 0 = 10 # [11, 12, 13, 14] \<and>
   prefix (events demo_trainer @
             [PrintEpoch 0, ZeroGrad, Backward 10, ClipGrad, OptStep [10], LogTrain 0])
     (events (final (fit demo_trainer 2 7 3 4 demo_datamodule)))"
proof -
  have h: "accumulate_grad_batches (demo_trainer\<lparr>global_step := 3\<rparr>) \<noteq> 0"
    "accumulate_grad_batches demo_trainer \<noteq> 0"
    "(0::int) < 2 \<and> train_dataloader demo_datamodule 0 = 10 # [11, 12, 13, 14]"
    by (simp_all add: demo_trainer_def demo_datamodule_def)
  from update_gate[OF h(1), of 11 1] update_gate[OF h(2), of 10 0 2 demo_datamodule _ 7 3 4] h
  show ?thesis by (simp add: demo_trainer_def)
qed

text \<open>
  Claim C2 as stated fails for the accumulation factor 0: the gate itself raises
  \<open>ZeroDivisionError\<close> on the first batch, after the backward pass and before any clipping
  or update.
\<close>

theorem update_gate_counterexample:
  "fit (demo_trainer\<lparr>accumulate_grad_batches := 0\<rparr>) 1 5 1 1 demo_datamodule =
     Inl (ZeroDivisionError,
          \<lparr>lr_step = LrEpoch, lr_scheduler = True, accumulate_grad_batches = 0,
           global_step = 0, grads = [10],
           events = [PrintEpoch 0, ZeroGrad, Backward 10]\<rparr>)"
  by (simp add: fit_eval)

text \<open>
  Claim C7, as amended. With epoch granularity, a returning \<open>fit\<close> advances the
  scheduler exactly once per epoch it has begun, after that epoch's batch loop has ended
  (the scheduler step is the last event of its epoch: the next event, if any, is the
  beginning of the next epoch), whether the batch loop ran to its end or was left by the
  \<open>max_steps\<close> stop. The epochs begun are \<open>0, ..., k - 1\<close>, all \<open>max_epochs\<close> of them
  unless the stop cut the run.
\<close>

theorem epoch_scheduler_steps:
  assumes "lr_step t = LrEpoch" and "fit t me ms v sv dm = Inr t'"
  shows "(\<exists>k\<le>nat me. (k = nat me \<or> ms < global_step t') \<and>
            filter is_epoch_mark (events t') =
              filter is_epoch_mark (events t) @
                concat (map (\<lambda>e. [PrintEpoch e, SchedStep]) [0..<k])) \<and>
         (\<forall>pre post. events t' = events t @ pre @ SchedStep # post \<longrightarrow>
            post = [] \<or> (\<exists>e post'. post = PrintEpoch e # post'))"
proof -
  from assms(2) have r: "fit_epochs ms v sv dm (t\<lparr>global_step := 0\<rparr>) 0 [0..<nat me] = Inr t'"
    by (simp add: fit_def)
  have "lr_step (t\<lparr>global_step := 0\<rparr>) = LrEpoch" using assms(1) by simp
  from fit_epochs_marks[OF this r] obtain new k where
    ev0: "events t' = events (t\<lparr>global_step := 0\<rparr>) @ new" and k0: "k \<le> length [0..<nat me]"
    and kk0: "k = length [0..<nat me] \<or> ms < global_step t'"
    and m: "filter is_epoch_mark new =
              concat (map (\<lambda>e. [PrintEpoch e, SchedStep]) (take k [0..<nat me]))"
    and c: "sched_closes new"
    by blast
  from ev0 k0 kk0 have ev: "events t' = events t @ new" and k: "k \<le> nat me"
    and kk: "k = nat me \<or> ms < global_step t'"
    by simp_all
  from k have "take k [0..<nat me] = [0..<k]" by simp
  with m ev have "filter is_epoch_mark (events t') =
      filter is_epoch_mark (events t) @ concat (map (\<lambda>e. [PrintEpoch e, SchedStep]) [0..<k])"
    by simp
  with k kk have first: "\<exists>k\<le>nat me. (k = nat me \<or> ms < global_step t') \<and>
            filter is_epoch_mark (events t') =
              filter is_epoch_mark (events t) @
                concat (map (\<lambda>e. [PrintEpoch e, SchedStep]) [0..<k])"
    by blast
  from c ev have "\<forall>pre post. events t' = events t @ pre @ SchedStep # post \<longrightarrow>
            post = [] \<or> (\<exists>e post'. post = PrintEpoch e # post')"
    unfolding sched_closes_def by simp
  with first show ?thesis by blast
qed

theorem epoch_scheduler_steps_witness:
  "lr_step demo_trainer = LrEpoch \<and>
   fit demo_trainer 2 100 7 7 demo_datamodule =
     Inr (final (fit demo_trainer 2 100 7 7 demo_datamodule)) \<and>
   filter is_epoch_mark (events (final (fit demo_trainer 2 100 7 7 demo_datamodule))) =
     [PrintEpoch 0, SchedStep, PrintEpoch 1, SchedStep] \<and>
   (\<exists>k\<le>nat 2. (k = nat 2 \<or> 100 < global_step (final (fit demo_trainer 2 100 7 7 demo_datamodule))) \<and>
      filter is_epoch_mark (events (final (fit demo_trainer 2 100 7 7 demo_datamodule))) =
        filter is_epoch_mark (events demo_trainer) @
          concat (map (\<lambda>e. [PrintEpoch e, SchedStep]) [0..<k]))"
proof -
  have l: "lr_step demo_trainer = LrEpoch" by (simp add: demo_trainer_def)
  have r: "fit demo_trainer 2 100 7 7 demo_datamodule =
     Inr (final (fit demo_trainer 2 100 7 7 demo_datamodule))"
    by (simp add: fit_eval)
  have m: "filter is_epoch_mark (events (final (fit demo_trainer 2 100 7 7 demo_datamodule))) =
     [PrintEpoch 0, SchedStep, PrintEpoch 1, SchedStep]"
    by (simp add: fit_eval)
  from epoch_scheduler_steps[OF l r] l r m show ?thesis by blast
qed

text \<open>
  Claim C7 as stated fails: here the batch loop of epoch 0 is left by the \<open>max_steps\<close>
  stop after two of its five batches, and the scheduler is advanced all the same.
\<close>

theorem epoch_scheduler_steps_counterexample:
  "fit demo_trainer 2 1 7 7 demo_datamodule =
     Inr \<lparr>lr_step = LrEpoch, lr_scheduler = True, accumulate_grad_batches = 2,
          global_step = 2, grads = [11],
          events = [PrintEpoch 0, ZeroGrad, Backward 10, ClipGrad, OptStep [10], LogTrain 0,
                    ValidationStep 20 0, ZeroGrad, Backward 11, LogTrain 1, SchedStep]\<rparr>"
  by (simp add: fit_eval)

text \<open>
  Claim C9, as amended. For a run with at least one epoch and one training batch whose
  scheduler gates raise nothing, \<open>fit\<close> raises \<open>ZeroDivisionError\<close> exactly when
  \<open>accumulate_grad_batches\<close> is zero, or \<open>max_steps \<ge> 1\<close> and one of
  \<open>save_every_n_steps\<close>, \<open>validation_every_n_steps\<close> is zero. With \<open>max_steps < 1\<close>
  the loop is left after the first training step, before the other two modulo operations.
\<close>

theorem zero_division_iff:
  assumes me: "0 < me" and dl: "train_dataloader dm 0 \<noteq> []" and ok: "sched_ok t"
  shows "(\<exists>t'. fit t me ms v sv dm = Inl (ZeroDivisionError, t')) \<longleftrightarrow>
     (accumulate_grad_batches t = 0 \<or> (1 \<le> ms \<and> (sv = 0 \<or> v = 0)))"
proof
  assume "\<exists>t'. fit t me ms v sv dm = Inl (ZeroDivisionError, t')"
  then obtain t' where r: "fit t me ms v sv dm = Inl (ZeroDivisionError, t')" ..
  then have "fit_epochs ms v sv dm (t\<lparr>global_step := 0\<rparr>) 0 [0..<nat me] = Inl (ZeroDivisionError, t')"
    by (simp add: fit_def)
  from fit_epochs_Inl[OF this] ok
  have z: "accumulate_grad_batches t = 0 \<or> sv = 0 \<or> v = 0" by (auto simp: sched_ok_def)
  show "accumulate_grad_batches t = 0 \<or> (1 \<le> ms \<and> (sv = 0 \<or> v = 0))"
  proof (rule ccontr)
    assume neg: "\<not> ?thesis"
    with z have acc: "accumulate_grad_batches t \<noteq> 0" and ms: "ms < 1" by auto
    from dl obtain b bs where "train_dataloader dm 0 = b # bs" by (cases "train_dataloader dm 0") auto
    from fit_first_step_stops[OF me this acc ok ms, of v sv] r show False
      by (elim exE conjE) simp
  qed
next
  assume z: "accumulate_grad_batches t = 0 \<or> (1 \<le> ms \<and> (sv = 0 \<or> v = 0))"
  from dl obtain b bs where dl': "train_dataloader dm 0 = b # bs" by (cases "train_dataloader dm 0") auto
  let ?t0 = "emit (t\<lparr>global_step := 0\<rparr>) [PrintEpoch 0]"
  have ok0: "sched_ok ?t0" using ok by (simp add: emit_def)
  have z0: "accumulate_grad_batches ?t0 = 0 \<or> (\<not> ms < global_step ?t0 + 1 \<and> (sv = 0 \<or> v = 0))"
    using z by (auto simp: emit_def)
  from loop_body_zero_div[OF ok0 z0, where vs = "val_dataloader dm" and pos = 0 and i = 0 and b = b]
  obtain t' where
    "loop_body ms v sv (val_dataloader dm) ?t0 0 0 b = Inl (ZeroDivisionError, t')" ..
  then have "fit t me ms v sv dm = Inl (ZeroDivisionError, t')"
    by (simp add: fit_def upt_nat_Cons[OF me] dl')
  then show "\<exists>t'. fit t me ms v sv dm = Inl (ZeroDivisionError, t')" ..
qed

theorem zero_division_iff_witness:
  "(0::int) < 1 \<and> train_dataloader demo_datamodule 0 \<noteq> [] \<and> sched_ok demo_trainer \<and>
   (\<exists>t'. fit demo_trainer 1 5 0 3 demo_datamodule = Inl (ZeroDivisionError, t')) \<and>
   (accumulate_grad_batches demo_trainer = 0 \<or> ((1::int) \<le> 5 \<and> ((3::int) = 0 \<or> (0::int) = 0)))"
proof -
  have h: "(0::int) < 1" "train_dataloader demo_datamodule 0 \<noteq> []" "sched_ok demo_trainer"
    by (simp_all add: demo_trainer_def demo_datamodule_def sched_ok_def)
  from zero_division_iff[OF h, of 5 0 3] h show ?thesis by simp
qed

text \<open>
  Claim C9 as stated fails: with \<open>max_steps = 0\<close> the run trains on one batch and raises
  nothing although \<open>save_every_n_steps\<close> and \<open>validation_every_n_steps\<close> are both zero.
\<close>

theorem zero_division_iff_counterexample:
  "fit demo_trainer 1 0 0 0 demo_datamodule =
     Inr \<lparr>lr_step = LrEpoch, lr_scheduler = True, accumulate_grad_batches = 2,
          global_step = 1, grads = [10],
          events = [PrintEpoch 0, ZeroGrad, Backward 10, ClipGrad, OptStep [10], LogTrain 0,
                    SchedStep]\<rparr>"
  by (simp add: fit_eval)

section \<open>The claims about the logger\<close>

text \<open>
  Claim C4. Two loggers constructed one after the other against the same base directory
  get two different run directories. The first gets \<open>run<k>\<close> for the smallest \<open>k\<close>
  whose directory does not exist yet; nothing that existed is removed, the new directory
  exists afterwards, and the second construction picks a directory that did not exist
  after the first. When neither \<open>run0\<close> nor \<open>run1\<close> exists beforehand, they are
  \<open>run0\<close> and then \<open>run1\<close>.
\<close>

theorem run_directories:
  assumes i1: "CustomLogger_init fs dir n1 v1 cfg1 = (fs1, l1)"
    and i2: "CustomLogger_init fs1 dir n2 v2 cfg2 = (fs2, l2)"
  shows "(\<exists>k. save_dir l1 = run_dir dir k \<and> \<not> path_exists fs (run_dir dir k) \<and>
            (\<forall>j<k. path_exists fs (run_dir dir j))) \<and>
         set fs \<subseteq> set fs1 \<and> path_exists fs1 (save_dir l1) \<and>
         \<not> path_exists fs1 (save_dir l2) \<and> save_dir l2 \<noteq> save_dir l1 \<and>
         (\<not> path_exists fs (run_dir dir 0) \<and> \<not> path_exists fs (run_dir dir 1) \<longrightarrow>
            save_dir l1 = dir @ ''/run0'' \<and> save_dir l2 = dir @ ''/run1'')"
proof (rule init_twice[OF i1 i2])
  fix k k'
  assume k: "save_dir l1 = run_dir dir k" "run_dir dir k \<notin> set fs"
      "\<forall>m<k. run_dir dir m \<in> set fs"
    and k': "save_dir l2 = run_dir dir k'" "run_dir dir k' \<notin> set fs1"
      "\<forall>m<k'. run_dir dir m \<in> set fs1"
    and fs1: "set fs1 = set fs \<union> set (parent_dirs (save_dir l1)) \<union> {save_dir l1} \<union>
       set (parent_dirs (save_dir l1 @ ''/checkpoints'')) \<union>
       {save_dir l1 @ ''/checkpoints'', save_dir l1 @ ''/config.yaml''}"
  have a: "\<exists>k. save_dir l1 = run_dir dir k \<and> \<not> path_exists fs (run_dir dir k) \<and>
            (\<forall>j<k. path_exists fs (run_dir dir j))"
    using k by (auto simp: path_exists_def)
  have b: "set fs \<subseteq> set fs1" "path_exists fs1 (save_dir l1)"
    using fs1 by (auto simp: path_exists_def)
  have c: "\<not> path_exists fs1 (save_dir l2)" using k' by (simp add: path_exists_def)
  with b(2) have d: "save_dir l2 \<noteq> save_dir l1" by auto
  have e: "save_dir l1 = dir @ ''/run0'' \<and> save_dir l2 = dir @ ''/run1''"
    if free: "\<not> path_exists fs (run_dir dir 0) \<and> \<not> path_exists fs (run_dir dir 1)"
  proof -
    from free k(3) have "k = 0" by (cases k) (auto simp: path_exists_def)
    with k(1) have l1: "save_dir l1 = dir @ ''/run0''" by (simp add: run_dir_0)
    have r1: "run_dir dir (Suc 0) \<notin> set fs1"
      unfolding fs1 l1 run_dir_1
      using free run1_not_parent[of "dir @ ''/run1''" dir "[]"]
        run1_not_parent[of "dir @ ''/run1''" dir "''/checkpoints''"]
      by (auto simp: path_exists_def run_dir_1)
    have "run_dir dir 0 \<in> set fs1" using b(2) l1 by (simp add: path_exists_def run_dir_0)
    with k'(2) have "k' \<noteq> 0" by (cases "k' = 0") auto
    moreover have "\<not> Suc 0 < k'" using k'(3) r1 by auto
    ultimately have "k' = Suc 0" by simp
    with k'(1) l1 show ?thesis by (simp add: run_dir_1)
  qed
  from a b c d e show ?thesis by blast
qed

theorem run_directories_witness:
  "CustomLogger_init [''logs''] ''logs'' ''exp'' ''0'' [] =
     (fst (CustomLogger_init [''logs''] ''logs'' ''exp'' ''0'' []),
      snd (CustomLogger_init [''logs''] ''logs'' ''exp'' ''0'' [])) \<and>
   CustomLogger_init (fst (CustomLogger_init [''logs''] ''logs'' ''exp'' ''0'' [])) ''logs'' ''exp'' ''1'' [] =
     (fst (CustomLogger_init (fst (CustomLogger_init [''logs''] ''logs'' ''exp'' ''0'' [])) ''logs'' ''exp'' ''1'' []),
      snd (CustomLogger_init (fst (CustomLogger_init [''logs''] ''logs'' ''exp'' ''0'' [])) ''logs'' ''exp'' ''1'' [])) \<and>
   \<not> path_exists [''logs''] (run_dir ''logs'' 0) \<and> \<not> path_exists [''logs''] (run_dir ''logs'' 1) \<and>
   save_dir (snd (CustomLogger_init [''logs''] ''logs'' ''exp'' ''0'' [])) = ''logs/run0'' \<and>
   save_dir (snd (CustomLogger_init (fst (CustomLogger_init [''logs''] ''logs'' ''exp'' ''0'' []))
      ''logs'' ''exp'' ''1'' [])) = ''logs/run1''"
proof -
  let ?i1 = "CustomLogger_init [''logs''] ''logs'' ''exp'' ''0'' []"
  let ?i2 = "CustomLogger_init (fst ?i1) ''logs'' ''exp'' ''1'' []"
  have h1: "?i1 = (fst ?i1, snd ?i1)" and h2: "?i2 = (fst ?i2, snd ?i2)" by simp_all
  have free: "\<not> path_exists [''logs''] (run_dir ''logs'' 0) \<and>
      \<not> path_exists [''logs''] (run_dir ''logs'' 1)"
    by (simp add: path_exists_def run_dir_0 run_dir_1)
  from run_directories[OF h1 h2] free h1 h2 show ?thesis by simp
qed




text \<open>
  Claim C8, as amended. Every value of the hyperparameter mapping is a string after
  construction, and \<open>update_hyperparams\<close> preserves this when every value of its
  \<open>hparams\<close> argument is a string; it stores the values it is given as they are.
\<close>

theorem hparams_strings:
  "all_str (hparams (snd (CustomLogger_init fs dir name ver cfg))) \<and>
   (all_str (hparams l) \<and> all_str hp \<longrightarrow> all_str (hparams (update_hyperparams l hp ms)))"
  using all_str_init[of fs dir name ver cfg] all_str_update[of l hp ms] by blast

theorem hparams_strings_witness:
  "all_str (hparams (snd (CustomLogger_init [] ''logs'' ''exp'' ''0'' [(''lr'', AOther ''0.001'')]))) \<and>
   all_str [(''note'', Atom (AStr ''baseline''))] \<and>
   all_str (hparams (update_hyperparams
      (snd (CustomLogger_init [] ''logs'' ''exp'' ''0'' [(''lr'', AOther ''0.001'')]))
      [(''note'', Atom (AStr ''baseline''))] [(''loss'', Atom (AOther ''0.25''))]))"
proof -
  let ?l = "snd (CustomLogger_init [] ''logs'' ''exp'' ''0'' [(''lr'', AOther ''0.001'')])"
  have hp: "all_str [(''note'', Atom (AStr ''baseline''))]" by (simp add: all_str_def)
  from hparams_strings[of "[]" "''logs''" "''exp''" "''0''" "[(''lr'', AOther ''0.001'')]"
      ?l "[(''note'', Atom (AStr ''baseline''))]" "[(''loss'', Atom (AOther ''0.25''))]"] hp
  show ?thesis by blast
qed

text \<open>
  Claim C8 as stated fails: \<open>update_hyperparams\<close> with the integer value 5 leaves a
  non-string value in the mapping.
\<close>

theorem hparams_strings_counterexample:
  "\<not> all_str (hparams (update_hyperparams
      (snd (CustomLogger_init [] ''logs'' ''exp'' ''0'' [(''lr'', AOther ''0.001'')]))
      [(''epochs'', Atom (AInt 5))] []))"
  by code_simp

end
